theory Spec2Isabelle
  imports Main "HOL-Library.Word"
begin

section \<open>The world map registry of the Illarion server (WorldMap.cpp)\<close>

text \<open>
  \<^verbatim>\<open>WorldMap\<close> owns a vector \<^verbatim>\<open>maps\<close> of shared pointers to \<^verbatim>\<open>Map\<close> objects, a
  dictionary \<^verbatim>\<open>world_map\<close> from positions to such pointers, and the cursor
  \<^verbatim>\<open>ageIndex\<close> of the aging sweep. The declarations of \<^verbatim>\<open>Map\<close>, \<^verbatim>\<open>Field\<close>,
  \<^verbatim>\<open>Item\<close>, \<^verbatim>\<open>position\<close> and \<^verbatim>\<open>MAP_POSITION\<close> live in headers that are not among the
  sources. What WorldMap.cpp reads of them is modelled here:

  \<^item> a coordinate (\<^verbatim>\<open>Min_X\<close>, \<^verbatim>\<open>Max_X\<close>, \<^verbatim>\<open>Min_Y\<close>, \<^verbatim>\<open>Max_Y\<close>, \<^verbatim>\<open>Z_Level\<close>, the
    components of a position) is written as the integer it denotes. The bounds of
    a \<^verbatim>\<open>Map\<close> are 16-bit signed: \<^verbatim>\<open>exportTo\<close> keeps \<^verbatim>\<open>GetMinX()\<close> and \<^verbatim>\<open>GetMinY()\<close> in
    \<^verbatim>\<open>int16_t\<close> variables and counts with \<^verbatim>\<open>short int\<close>, and the counters of
    \<^verbatim>\<open>InsertMap\<close> have the type of the fields (\<^verbatim>\<open>auto x = newMap->Min_X\<close>). The loops
    over the rectangle of a map are modelled with such a counter, wrap-around
    included;
  \<^item> a shared pointer is the address of the object it owns, or null; two pointers
    are equal when the addresses are;
  \<^item> the objects live in a store that maps an address to the \<^verbatim>\<open>Map\<close> found there.
    WorldMap.cpp never writes a field of a \<^verbatim>\<open>Map\<close>, so the store is an argument
    that is read and never returned;
  \<^item> the member functions \<^verbatim>\<open>Map::intersects\<close> and \<^verbatim>\<open>Map::GetCFieldAt\<close> are defined
    in Map.cpp, which is not among the sources either. Each is a field of the
    record of the object: what the call on this object returns. The theorems hold
    whatever these functions are; \<^verbatim>\<open>GetCFieldAt\<close> returns the field it has filled
    in, or \<open>None\<close> where the source returns false;
  \<^item> a \<^verbatim>\<open>std::string\<close> is the list of its bytes, none of them the NUL byte, so that
    \<^verbatim>\<open>c_str()\<close> denotes the same string.
\<close>

subsection \<open>Data\<close>

datatype position = Position (pos_x: int) (pos_y: int) (pos_z: int)

datatype MAP_POSITION = MAP_POSITION (mp_x: int) (mp_y: int)

record Item =
  getId :: int
  getQuality :: int
  getData :: "(string \<times> string) list"

record Field =
  getTileCode :: int
  getMusicId :: int
  GetWarpField :: "position option"
  giveExportItems :: "Item list"

record Map =
  Min_X :: int
  Max_X :: int
  Min_Y :: int
  Max_Y :: int
  Z_Level :: int
  Width :: int
  Height :: int
  intersects :: "MAP_POSITION \<Rightarrow> MAP_POSITION \<Rightarrow> int \<Rightarrow> bool"
  GetCFieldAt :: "int \<Rightarrow> int \<Rightarrow> Field option"

type_synonym addr = nat

text \<open>\<^verbatim>\<open>map_t\<close> is \<^verbatim>\<open>std::shared_ptr<Map>\<close>: \<open>None\<close> is the null pointer.\<close>

type_synonym map_t = "addr option"

type_synonym store = "addr \<Rightarrow> Map"

text \<open>
  \<^verbatim>\<open>InsertMap\<close> is the only function that adds to \<^verbatim>\<open>maps\<close> and to \<^verbatim>\<open>world_map\<close>,
  and it adds the pointer it has just tested to be non-null. Both containers
  therefore hold addresses.
\<close>

record WorldMap =
  maps :: "addr list"
  world_map :: "position \<rightharpoonup> addr"
  ageIndex :: nat

text \<open>
  Modelled from the spec: the initial value of \<^verbatim>\<open>ageIndex\<close> is given in WorldMap.hpp,
  which is not among the sources; the cursor is "an index into the registry's ordered
  sequence, starting at 0".
\<close>

definition empty_world :: WorldMap where
  "empty_world = \<lparr>maps = [], world_map = Map.empty, ageIndex = 0\<rparr>"

subsection \<open>Loops with a 16-bit counter\<close>

text \<open>
  A loop \<^verbatim>\<open>for (c = lo; c <= hi; ++c)\<close> whose counter is a \<^verbatim>\<open>short\<close>: the increment
  of the largest value gives the smallest one, so the test holds for ever when
  \<open>hi\<close> is the largest value. A run that does not end is the value \<open>None\<close>; the body
  may itself be a loop that does not end.
\<close>

definition SHRT_MAX :: int where
  "SHRT_MAX = 32767"

definition SHRT_MIN :: int where
  "SHRT_MIN = - 32768"

definition next_short :: "int \<Rightarrow> int" where
  "next_short c = (if c = SHRT_MAX then SHRT_MIN else c + 1)"

partial_function (option) for_short ::
    "(int \<Rightarrow> 's \<Rightarrow> 's option) \<Rightarrow> int \<Rightarrow> int \<Rightarrow> 's \<Rightarrow> 's option" where
  "for_short body c hi s =
     (if c \<le> hi then Option.bind (body c s) (\<lambda>s'. for_short body (next_short c) hi s')
      else Some s)"

text \<open>
  For the proofs: the run of a body over a list of counter values, and the bounds
  between which the counter reaches its largest value.
\<close>

fun fold_option :: "('a \<Rightarrow> 's \<Rightarrow> 's option) \<Rightarrow> 'a list \<Rightarrow> 's \<Rightarrow> 's option" where
  "fold_option f [] s = Some s"
| "fold_option f (x # xs) s = Option.bind (f x s) (fold_option f xs)"

definition wraps :: "int \<Rightarrow> int \<Rightarrow> bool" where
  "wraps lo hi \<longleftrightarrow> lo \<le> SHRT_MAX \<and> SHRT_MAX \<le> hi"

subsection \<open>clear, findMapForPos, InsertMap\<close>

definition clear :: "WorldMap \<Rightarrow> WorldMap" where
  "clear w = w\<lparr>maps := [], world_map := Map.empty\<rparr>"


text \<open>
  The two nested loops of \<^verbatim>\<open>InsertMap\<close>: x outermost, y innermost. The new map is
  appended to the sequence before the loops; a call whose loops never end returns
  nothing.
\<close>

definition insert_column :: "addr \<Rightarrow> int \<Rightarrow> int \<Rightarrow> int \<Rightarrow> int \<Rightarrow>
    (position \<rightharpoonup> addr) \<Rightarrow> (position \<rightharpoonup> addr) option" where
  "insert_column newMap z lo hi x wm =
     for_short (\<lambda>y m. Some (m(Position x y z \<mapsto> newMap))) lo hi wm"

definition insert_cells :: "store \<Rightarrow> addr \<Rightarrow> (position \<rightharpoonup> addr) \<Rightarrow> (position \<rightharpoonup> addr) option" where
  "insert_cells h newMap wm =
     for_short (insert_column newMap (Z_Level (h newMap)) (Min_Y (h newMap)) (Max_Y (h newMap)))
       (Min_X (h newMap)) (Max_X (h newMap)) wm"

definition InsertMap :: "store \<Rightarrow> map_t \<Rightarrow> WorldMap \<Rightarrow> (bool \<times> WorldMap) option" where
  "InsertMap h newMap w =
     (case newMap of
        Some p \<Rightarrow>
          if p \<in> set (maps w) then Some (False, w)
          else (case insert_cells h p (world_map w) of
                  None \<Rightarrow> None
                | Some wm \<Rightarrow> Some (True, w\<lparr>maps := maps w @ [p], world_map := wm\<rparr>))
      | None \<Rightarrow> Some (False, w))"

subsection \<open>mapInRangeOf, findAllMapsInRangeOf\<close>

text \<open>
  \<^verbatim>\<open>mapInRangeOf\<close> passes the \<^verbatim>\<open>position\<close> \<^verbatim>\<open>upperleft\<close> where \<^verbatim>\<open>intersects\<close> takes a
  \<^verbatim>\<open>MAP_POSITION\<close>: the conversion keeps x and y. \<^verbatim>\<open>dx\<close> and \<^verbatim>\<open>dy\<close> are
  \<^verbatim>\<open>unsigned short\<close>, the four margins are \<^verbatim>\<open>char\<close>, read as signed (as on the x86
  targets of the server); the sums are computed after promotion to \<^verbatim>\<open>int\<close>.
\<close>

definition to_MAP_POSITION :: "position \<Rightarrow> MAP_POSITION" where
  "to_MAP_POSITION pos = MAP_POSITION (pos_x pos) (pos_y pos)"

definition mapInRangeOf :: "store \<Rightarrow> WorldMap \<Rightarrow> position \<Rightarrow> 16 word \<Rightarrow> 16 word \<Rightarrow> bool" where
  "mapInRangeOf h w upperleft dx dy =
     (let downright = MAP_POSITION (pos_x upperleft + uint dx - 1) (pos_y upperleft + uint dy - 1)
      in list_ex (\<lambda>m. intersects (h m) (to_MAP_POSITION upperleft) downright (pos_z upperleft))
           (maps w))"

definition findAllMapsInRangeOf ::
    "store \<Rightarrow> WorldMap \<Rightarrow> 8 word \<Rightarrow> 8 word \<Rightarrow> 8 word \<Rightarrow> 8 word \<Rightarrow> position \<Rightarrow> addr list" where
  "findAllMapsInRangeOf h w rnorth rsouth reast rwest pos =
     (let upperleft = MAP_POSITION (pos_x pos - sint rwest) (pos_y pos - sint rnorth);
          downright = MAP_POSITION (pos_x pos + sint reast) (pos_y pos + sint rsouth)
      in filter (\<lambda>m. intersects (h m) upperleft downright (pos_z pos)) (maps w))"

subsection \<open>allMapsAged\<close>

text \<open>
  The loop of \<^verbatim>\<open>allMapsAged\<close> reads the steady clock once per iteration, after the
  test on the cursor has succeeded (\<^verbatim>\<open>&&\<close> evaluates its right operand only then).
  A call is given the outcomes of its readings: \<open>within j\<close> is the value of
  \<^verbatim>\<open>steady_clock::now() - startTime < milliseconds(10)\<close> at the reading number \<open>j\<close>
  of the call. Nothing is assumed of them. \<^verbatim>\<open>age()\<close> works inside the \<^verbatim>\<open>Map\<close>; the
  model records which maps were aged, in the order of the calls of the hook.
\<close>

function age_loop :: "(nat \<Rightarrow> bool) \<Rightarrow> nat \<Rightarrow> addr list \<Rightarrow> nat \<Rightarrow> addr list \<Rightarrow> nat \<times> addr list" where
  "age_loop within j ms i aged =
     (if i < length ms \<and> within j then age_loop within (Suc j) ms (Suc i) (aged @ [ms ! i])
      else (i, aged))"
  by pat_completeness auto
termination
  by (relation "measure (\<lambda>(within, j, ms, i, aged). length ms - i)") auto

declare age_loop.simps [simp del]

text \<open>The result: the value returned, the maps aged by this call, the new state.\<close>

definition allMapsAged :: "(nat \<Rightarrow> bool) \<Rightarrow> WorldMap \<Rightarrow> bool \<times> addr list \<times> WorldMap" where
  "allMapsAged within w =
     (case age_loop within 0 (maps w) (ageIndex w) [] of
        (i, aged) \<Rightarrow>
          if i < length (maps w) then (False, aged, w\<lparr>ageIndex := i\<rparr>)
          else (True, aged, w\<lparr>ageIndex := 0\<rparr>))"

text \<open>
  A sequence of calls, one clock behaviour per call: the value and the maps aged of
  every call, and the state after the last one.
\<close>

fun sweep :: "(nat \<Rightarrow> bool) list \<Rightarrow> WorldMap \<Rightarrow> (bool \<times> addr list) list \<times> WorldMap" where
  "sweep [] w = ([], w)"
| "sweep (within # cs) w =
     (case allMapsAged within w of
        (r, aged, w') \<Rightarrow> (case sweep cs w' of (rs, w'') \<Rightarrow> ((r, aged) # rs, w'')))"

subsection \<open>exportTo: escaping\<close>

text \<open>
  \<^verbatim>\<open>boost::algorithm::replace_all(input, search, format)\<close> scans the input from the
  left; where the search string starts it puts the format string and goes on
  behind the match, so that the text it has put is not scanned again. An empty
  search string matches nowhere.
\<close>

function replace_all :: "string \<Rightarrow> string \<Rightarrow> string \<Rightarrow> string" where
  "replace_all input search format =
     (if input = [] then []
      else if search \<noteq> [] \<and> take (length search) input = search
      then format @ replace_all (drop (length search) input) search format
      else hd input # replace_all (tl input) search format)"
  by pat_completeness auto
termination
  by (relation "measure (\<lambda>(input, search, format). length input)") auto

declare replace_all.simps [simp del]

abbreviation backslash :: char where
  "backslash \<equiv> CHR 0x5C"

text \<open>The six calls of \<^verbatim>\<open>replace_all\<close> in \<^verbatim>\<open>exportTo\<close>, three on the key and three on the value.\<close>

definition escape :: "string \<Rightarrow> string" where
  "escape s =
     replace_all
       (replace_all
         (replace_all s [backslash] [backslash, backslash])
         ''='' [backslash, CHR ''=''])
       '';'' [backslash, CHR '';'']"

text \<open>What the item exporter writes for one entry of the data of an item.\<close>

definition export_data :: "string \<times> string \<Rightarrow> string" where
  "export_data kv = '';'' @ escape (fst kv) @ ''='' @ escape (snd kv)"

text \<open>
  The escape sequences by design: a backslash followed by a backslash, by \<open>=\<close> or by
  \<open>;\<close>. A text is well escaped when it is made of these sequences and of other
  characters that are none of the three; \<open>unescape\<close> reads such a text back.
\<close>

definition escape_char :: "char \<Rightarrow> string" where
  "escape_char c =
     (if c = backslash \<or> c = CHR ''='' \<or> c = CHR '';'' then [backslash, c] else [c])"

fun well_escaped :: "string \<Rightarrow> bool" where
  "well_escaped [] = True"
| "well_escaped [c] = (c \<noteq> backslash \<and> c \<noteq> CHR ''='' \<and> c \<noteq> CHR '';'')"
| "well_escaped (c # d # cs) =
     (if c = backslash then (d = backslash \<or> d = CHR ''='' \<or> d = CHR '';'') \<and> well_escaped cs
      else c \<noteq> CHR ''='' \<and> c \<noteq> CHR '';'' \<and> well_escaped (d # cs))"

fun unescape :: "string \<Rightarrow> string" where
  "unescape [] = []"
| "unescape [c] = [c]"
| "unescape (c # d # cs) = (if c = backslash then d # unescape cs else c # unescape (d # cs))"

subsection \<open>exportTo\<close>

text \<open>
  Numbers are written in decimal, by \<^verbatim>\<open>std::to_string\<close> in the file names and by
  \<^verbatim>\<open>operator<<\<close> in the files. \<^verbatim>\<open>minX\<close> and \<^verbatim>\<open>minY\<close> are \<^verbatim>\<open>int16_t\<close>, of the type of
  the bounds, and the counters \<^verbatim>\<open>x\<close> and \<^verbatim>\<open>y\<close> are \<^verbatim>\<open>short int\<close>.
\<close>

definition digit :: "nat \<Rightarrow> char" where
  "digit n = ''0123456789'' ! n"

fun to_digits :: "nat \<Rightarrow> string" where
  "to_digits n = (if n < 10 then [digit n] else to_digits (n div 10) @ [digit (n mod 10)])"

declare to_digits.simps [simp del]

definition to_string :: "int \<Rightarrow> string" where
  "to_string i = (if i < 0 then CHR ''-'' # to_digits (nat (- i)) else to_digits (nat i))"

definition endl :: string where
  "endl = [CHR 0x0A]"

text \<open>
  Modelled from the spec: the accessors of \<^verbatim>\<open>Map\<close> (Map.hpp, not among the sources)
  return the bounds and the size of the map ("min/max X, min/max Y, width, height").
\<close>

definition GetMinX :: "Map \<Rightarrow> int" where "GetMinX m = Min_X m"
definition GetMinY :: "Map \<Rightarrow> int" where "GetMinY m = Min_Y m"
definition GetMaxX :: "Map \<Rightarrow> int" where "GetMaxX m = Max_X m"
definition GetMaxY :: "Map \<Rightarrow> int" where "GetMaxY m = Max_Y m"
definition GetWidth :: "Map \<Rightarrow> int" where "GetWidth m = Width m"
definition GetHeight :: "Map \<Rightarrow> int" where "GetHeight m = Height m"

text \<open>
  The files: a path has a content or does not exist. Whether a path can be opened
  for writing is given by the environment. Constructing a \<^verbatim>\<open>std::ofstream\<close> on a
  path that can be opened creates the file or empties it; on another path it
  leaves the files alone and the stream is not good. What is written to a good
  stream is in the file when the stream is closed.
\<close>

type_synonym files = "string \<rightharpoonup> string"

definition open_out :: "(string \<Rightarrow> bool) \<Rightarrow> string \<Rightarrow> files \<Rightarrow> files" where
  "open_out can_open path fs = (if can_open path then fs(path \<mapsto> []) else fs)"

text \<open>What has been written to the three streams of a map.\<close>

record streams =
  fieldsf :: string
  itemsf :: string
  warpsf :: string

definition export_item :: "int \<Rightarrow> int \<Rightarrow> Item \<Rightarrow> string" where
  "export_item lx ly it =
     to_string lx @ '';'' @ to_string ly @ '';'' @ to_string (getId it) @ '';'' @
     to_string (getQuality it) @ concat (map export_data (getData it)) @ endl"

text \<open>
  The body of the inner loop. \<open>GetWarpField\<close> is \<open>None\<close> where \<^verbatim>\<open>IsWarpField()\<close> is
  false, and the target otherwise.
\<close>

definition export_cell :: "Map \<Rightarrow> int \<Rightarrow> int \<Rightarrow> int \<Rightarrow> int \<Rightarrow> streams \<Rightarrow> streams" where
  "export_cell m minX minY y x st =
     (case GetCFieldAt m x y of
        None \<Rightarrow> st
      | Some field \<Rightarrow>
          st\<lparr>fieldsf := fieldsf st @ to_string (x - minX) @ '';'' @ to_string (y - minY) @ '';'' @
                 to_string (getTileCode field) @ '';'' @ to_string (getMusicId field) @ endl,
             warpsf := warpsf st @
               (case GetWarpField field of
                  None \<Rightarrow> []
                | Some target \<Rightarrow>
                    to_string (x - minX) @ '';'' @ to_string (y - minY) @ '';'' @
                    to_string (pos_x target) @ '';'' @ to_string (pos_y target) @ '';'' @
                    to_string (pos_z target) @ endl),
             itemsf := itemsf st @
               concat (map (export_item (x - minX) (y - minY)) (giveExportItems field))\<rparr>)"

definition export_header :: "Map \<Rightarrow> string" where
  "export_header m =
     ''V: 2'' @ endl @
     ''L: '' @ to_string (Z_Level m) @ endl @
     ''X: '' @ to_string (GetMinX m) @ endl @
     ''Y: '' @ to_string (GetMinY m) @ endl @
     ''W: '' @ to_string (GetWidth m) @ endl @
     ''H: '' @ to_string (GetHeight m) @ endl"

text \<open>
  The two nested loops of \<^verbatim>\<open>exportTo\<close>, y outermost, after the header: what has been
  written to the three streams when the loops end, if they do.
\<close>

definition export_streams :: "Map \<Rightarrow> streams option" where
  "export_streams m =
     for_short
       (\<lambda>y st. for_short (\<lambda>x st. Some (export_cell m (GetMinX m) (GetMinY m) y x st))
                  (GetMinX m) (GetMaxX m) st)
       (GetMinY m) (GetMaxY m)
       \<lparr>fieldsf = export_header m, itemsf = [], warpsf = []\<rparr>"

text \<open>For the proofs: the same streams by a run over the lists of the counter values.\<close>

definition export_cells :: "Map \<Rightarrow> streams" where
  "export_cells m =
     fold (\<lambda>y st. fold (export_cell m (GetMinX m) (GetMinY m) y) [GetMinX m..GetMaxX m] st)
       [GetMinY m..GetMaxY m]
       \<lparr>fieldsf = export_header m, itemsf = [], warpsf = []\<rparr>"

definition filebase :: "string \<Rightarrow> Map \<Rightarrow> string" where
  "filebase exportDir m =
     exportDir @ ''e_'' @ to_string (GetMinX m) @ ''_'' @ to_string (GetMinY m) @ ''_'' @
     to_string (Z_Level m) @ ''.''"

text \<open>
  One turn of the loop over the maps: the three streams are opened, then tested.
  The result says whether the loop goes on; there is none when the loops over the
  cells do not end.
\<close>

definition export_map :: "(string \<Rightarrow> bool) \<Rightarrow> string \<Rightarrow> Map \<Rightarrow> files \<Rightarrow> (bool \<times> files) option" where
  "export_map can_open exportDir m fs =
     (let tiles = filebase exportDir m @ ''tiles.txt'';
          items = filebase exportDir m @ ''items.txt'';
          warps = filebase exportDir m @ ''warps.txt'';
          fs' = open_out can_open warps (open_out can_open items (open_out can_open tiles fs))
      in if \<not> can_open tiles \<or> \<not> can_open items \<or> \<not> can_open warps then Some (False, fs')
         else (case export_streams m of
                 None \<Rightarrow> None
               | Some st \<Rightarrow>
                   Some (True, fs'(tiles \<mapsto> fieldsf st, items \<mapsto> itemsf st, warps \<mapsto> warpsf st))))"

fun export_maps ::
    "(string \<Rightarrow> bool) \<Rightarrow> store \<Rightarrow> string \<Rightarrow> addr list \<Rightarrow> files \<Rightarrow> (bool \<times> files) option" where
  "export_maps can_open h exportDir [] fs = Some (True, fs)"
| "export_maps can_open h exportDir (p # ps) fs =
     (case export_map can_open exportDir (h p) fs of
        None \<Rightarrow> None
      | Some (False, fs') \<Rightarrow> Some (False, fs')
      | Some (True, fs') \<Rightarrow> export_maps can_open h exportDir ps fs')"

definition exportTo ::
    "(string \<Rightarrow> bool) \<Rightarrow> store \<Rightarrow> string \<Rightarrow> WorldMap \<Rightarrow> files \<Rightarrow> (bool \<times> files) option" where
  "exportTo can_open h exportDir w fs = export_maps can_open h exportDir (maps w) fs"

text \<open>The paths of the three streams of a map, and whether all of them can be opened.\<close>

definition stream_paths :: "string \<Rightarrow> Map \<Rightarrow> string list" where
  "stream_paths exportDir m =
     [filebase exportDir m @ ''tiles.txt'', filebase exportDir m @ ''items.txt'',
      filebase exportDir m @ ''warps.txt'']"

definition openable :: "(string \<Rightarrow> bool) \<Rightarrow> string \<Rightarrow> Map \<Rightarrow> bool" where
  "openable can_open exportDir m = list_all can_open (stream_paths exportDir m)"

subsection \<open>saveToDisk\<close>

text \<open>
  \<^verbatim>\<open>write((char *) &v, sizeof(v))\<close> writes the bytes of the object \<open>v\<close> as they are in
  memory. The byte order and the sizes of the fields of a \<^verbatim>\<open>Map\<close> belong to the
  platform and to Map.hpp; they are parameters. \<open>native be n v\<close> is the
  representation of the integer \<open>v\<close> in \<open>n\<close> bytes (two's complement), the
  least significant byte first unless \<open>be\<close>; \<open>native_value\<close> reads an unsigned
  value back.
\<close>

record platform =
  big_endian :: bool
  sizeof_Z_Level :: nat
  sizeof_Min_X :: nat
  sizeof_Min_Y :: nat
  sizeof_Width :: nat
  sizeof_Height :: nat

definition native :: "bool \<Rightarrow> nat \<Rightarrow> int \<Rightarrow> string" where
  "native be n v =
     (let bytes = map (\<lambda>k. char_of (v div 256 ^ k)) [0..<n] in if be then rev bytes else bytes)"

definition native_value :: "bool \<Rightarrow> string \<Rightarrow> int" where
  "native_value be bytes =
     foldr (\<lambda>b acc. of_char b + 256 * acc) (if be then rev bytes else bytes) 0"

text \<open>The five \<^verbatim>\<open>write\<close> calls of one turn of the loop.\<close>

definition record_bytes :: "platform \<Rightarrow> Map \<Rightarrow> string" where
  "record_bytes pl m =
     native (big_endian pl) (sizeof_Z_Level pl) (Z_Level m) @
     native (big_endian pl) (sizeof_Min_X pl) (Min_X m) @
     native (big_endian pl) (sizeof_Min_Y pl) (Min_Y m) @
     native (big_endian pl) (sizeof_Width pl) (Width m) @
     native (big_endian pl) (sizeof_Height pl) (Height m)"

definition sizeof_record :: "platform \<Rightarrow> nat" where
  "sizeof_record pl =
     sizeof_Z_Level pl + sizeof_Min_X pl + sizeof_Min_Y pl + sizeof_Width pl + sizeof_Height pl"

text \<open>
  The conversion \<^verbatim>\<open>%6d\<close> of \<^verbatim>\<open>sprintf\<close>: the number in decimal, with spaces before it
  up to a width of six characters.
\<close>

definition format_6d :: "int \<Rightarrow> string" where
  "format_6d v = replicate (6 - length (to_string v)) (CHR '' '') @ to_string v"

text \<open>The text that \<^verbatim>\<open>sprintf(mname, "%s_%6d_%6d_%6d", ...)\<close> produces.\<close>

definition sprintf_mname :: "string \<Rightarrow> Map \<Rightarrow> string" where
  "sprintf_mname prefix m =
     prefix @ ''_'' @ format_6d (Z_Level m) @ ''_'' @ format_6d (Min_X m) @ ''_'' @
     format_6d (Min_Y m)"

text \<open>
  \<^verbatim>\<open>mname\<close> has 200 bytes, and \<^verbatim>\<open>sprintf\<close> puts a NUL byte after the text. A longer
  text is written past the end of the array: the behaviour of the program is
  undefined from there, which the model reports as an error.
\<close>

datatype error = BufferOverflow

text \<open>
  The loop over the maps: the bytes written to the index file so far, and the calls
  of \<^verbatim>\<open>Map::Save\<close> so far (the map and the name passed to it). What \<^verbatim>\<open>Save\<close> does
  with the name is not part of WorldMap.cpp.
\<close>

fun save_maps :: "platform \<Rightarrow> store \<Rightarrow> string \<Rightarrow> addr list \<Rightarrow> string \<times> (addr \<times> string) list \<Rightarrow>
    error + string \<times> (addr \<times> string) list" where
  "save_maps pl h prefix [] acc = Inr acc"
| "save_maps pl h prefix (p # ps) (bytes, calls) =
     (if 200 < length (sprintf_mname prefix (h p)) + 1 then Inl BufferOverflow
      else save_maps pl h prefix ps
             (bytes @ record_bytes pl (h p), calls @ [(p, sprintf_mname prefix (h p))]))"

text \<open>
  \<^verbatim>\<open>saveToDisk\<close> returns nothing; the model returns the files and the calls of
  \<^verbatim>\<open>Save\<close>. \<^verbatim>\<open>size\<close> is an \<^verbatim>\<open>unsigned short\<close>, of 16 bits: the conversion from
  \<^verbatim>\<open>maps.size()\<close> keeps the value modulo \<open>2 ^ 16\<close>.
\<close>

definition saveToDisk :: "platform \<Rightarrow> (string \<Rightarrow> bool) \<Rightarrow> store \<Rightarrow> string \<Rightarrow> WorldMap \<Rightarrow> files \<Rightarrow>
    error + files \<times> (addr \<times> string) list" where
  "saveToDisk pl can_open h prefix w fs =
     (if can_open (prefix @ ''_initmaps'') then
        (let size = length (maps w) mod 2 ^ 16 in
         case save_maps pl h prefix (maps w) (native (big_endian pl) 2 (int size), []) of
           Inl e \<Rightarrow> Inl e
         | Inr (bytes, calls) \<Rightarrow> Inr (fs(prefix @ ''_initmaps'' \<mapsto> bytes), calls))
      else Inr (fs, []))"

text \<open>
  The name of the specification, for comparison: "prefix, z-level, minimum X, minimum
  Y joined by underscores".
\<close>

definition spec_filename :: "string \<Rightarrow> Map \<Rightarrow> string" where
  "spec_filename prefix m =
     prefix @ ''_'' @ to_string (Z_Level m) @ ''_'' @ to_string (Min_X m) @ ''_'' @
     to_string (Min_Y m)"

text \<open>A platform for the examples: little endian, 16-bit fields.\<close>

definition x86_short :: platform where
  "x86_short = \<lparr>big_endian = False, sizeof_Z_Level = 2, sizeof_Min_X = 2, sizeof_Min_Y = 2,
     sizeof_Width = 2, sizeof_Height = 2\<rparr>"

subsection \<open>The states of a registry\<close>

text \<open>
  A registry starts empty, with the cursor at 0, and changes by the three mutating
  member functions. A call of \<^verbatim>\<open>InsertMap\<close> that does not return leads to no state.
\<close>

inductive reachable :: "store \<Rightarrow> WorldMap \<Rightarrow> bool" for h :: store where
  reachable_empty: "reachable h empty_world"
| reachable_InsertMap: "reachable h w \<Longrightarrow> InsertMap h newMap w = Some (r, w') \<Longrightarrow> reachable h w'"
| reachable_clear: "reachable h w \<Longrightarrow> reachable h (clear w)"
| reachable_allMapsAged: "reachable h w \<Longrightarrow> reachable h (snd (snd (allMapsAged within w)))"

text \<open>A cell inside the bounds of the map at an address.\<close>

definition covers :: "store \<Rightarrow> addr \<Rightarrow> position \<Rightarrow> bool" where
  "covers h p pos \<longleftrightarrow>
     Min_X (h p) \<le> pos_x pos \<and> pos_x pos \<le> Max_X (h p) \<and>
     Min_Y (h p) \<le> pos_y pos \<and> pos_y pos \<le> Max_Y (h p) \<and> pos_z pos = Z_Level (h p)"

text \<open>The cells of the rectangle of a map, in the order \<^verbatim>\<open>InsertMap\<close> writes them.\<close>

definition cells :: "store \<Rightarrow> addr \<Rightarrow> position list" where
  "cells h p =
     concat (map (\<lambda>x. map (\<lambda>y. Position x y (Z_Level (h p))) [Min_Y (h p)..Max_Y (h p)])
       [Min_X (h p)..Max_X (h p)])"

text \<open>
  The invariant of the data model: every cell of every registered map has an entry
  in the dictionary, and the entry is a registered map that covers the cell.
\<close>

definition registry_inv :: "store \<Rightarrow> WorldMap \<Rightarrow> bool" where
  "registry_inv h w \<longleftrightarrow>
     (\<forall>p \<in> set (maps w). \<forall>pos \<in> set (cells h p).
        \<exists>q \<in> set (maps w). world_map w pos = Some q \<and> covers h q pos)"

text \<open>Two maps and a store that holds them, for the examples.\<close>

text \<open>
  Modelled from the spec: \<^verbatim>\<open>Map::intersects\<close> (Map.cpp, not among the sources) is "a
  bounds-intersection test against an arbitrary axis-aligned rectangle at a given
  z-level". Only the example maps use it.
\<close>

definition rect_intersects ::
    "int \<Rightarrow> int \<Rightarrow> int \<Rightarrow> int \<Rightarrow> int \<Rightarrow> MAP_POSITION \<Rightarrow> MAP_POSITION \<Rightarrow> int \<Rightarrow> bool" where
  "rect_intersects minx maxx miny maxy level upperleft downright z \<longleftrightarrow>
     z = level \<and> mp_x upperleft \<le> maxx \<and> minx \<le> mp_x downright \<and>
     mp_y upperleft \<le> maxy \<and> miny \<le> mp_y downright"

text \<open>
  The first map is the 3 x 2 map of the specification, at (10, 20) on level 0, with a
  field at every cell, one warp field, and one item whose data has the key
  \<^verbatim>\<open>a=b;c\d\<close> and the value \<^verbatim>\<open>x\y\<close>.
\<close>

definition plain_field :: Field where
  "plain_field = \<lparr>getTileCode = 2, getMusicId = 0, GetWarpField = None, giveExportItems = []\<rparr>"

definition fields_a :: "int \<Rightarrow> int \<Rightarrow> Field option" where
  "fields_a x y =
     (if 10 \<le> x \<and> x \<le> 12 \<and> 20 \<le> y \<and> y \<le> 21 then
        Some (if x = 11 \<and> y = 20 then plain_field\<lparr>GetWarpField := Some (Position 1 2 3)\<rparr>
              else if x = 12 \<and> y = 21 then
                plain_field\<lparr>giveExportItems :=
                  [\<lparr>getId = 5, getQuality = 333,
                    getData = [(''a=b;c'' @ [backslash] @ ''d'', ''x'' @ [backslash] @ ''y'')]\<rparr>]\<rparr>
              else plain_field)
      else None)"

definition map_a :: Map where
  "map_a = \<lparr>Min_X = 10, Max_X = 12, Min_Y = 20, Max_Y = 21, Z_Level = 0, Width = 3, Height = 2,
     intersects = rect_intersects 10 12 20 21 0, GetCFieldAt = fields_a\<rparr>"

definition map_b :: Map where
  "map_b = \<lparr>Min_X = 12, Max_X = 13, Min_Y = 21, Max_Y = 22, Z_Level = 0, Width = 2, Height = 2,
     intersects = rect_intersects 12 13 21 22 0, GetCFieldAt = (\<lambda>x y. None)\<rparr>"

definition two_maps :: store where
  "two_maps a = (if a = 0 then map_a else map_b)"

text \<open>The registry after the first map has been inserted, and after both have been.\<close>

definition world_a :: WorldMap where
  "world_a =
     \<lparr>maps = [0],
      world_map = (\<lambda>pos. if covers two_maps 0 pos then Some 0 else None),
      ageIndex = 0\<rparr>"

definition world_ab :: WorldMap where
  "world_ab =
     \<lparr>maps = [0, 1],
      world_map = (\<lambda>pos. if covers two_maps 1 pos then Some 1
                         else if covers two_maps 0 pos then Some 0 else None),
      ageIndex = 0\<rparr>"

text \<open>
  A map of width 0 whose maximum Y is the largest value of the counter, and the
  registry that holds it alone.
\<close>

definition map_c :: Map where
  "map_c = \<lparr>Min_X = 1, Max_X = 0, Min_Y = 0, Max_Y = 32767, Z_Level = 0, Width = 0,
     Height = 32768, intersects = rect_intersects 1 0 0 32767 0, GetCFieldAt = (\<lambda>x y. None)\<rparr>"

definition world_c :: WorldMap where
  "world_c = \<lparr>maps = [0], world_map = Map.empty, ageIndex = 0\<rparr>"

text \<open>The same registry after the second example map has been inserted behind it.\<close>

definition maps_cb :: store where
  "maps_cb a = (if a = 0 then map_c else map_b)"

definition world_cb :: WorldMap where
  "world_cb =
     \<lparr>maps = [0, 1],
      world_map = (\<lambda>pos. if covers maps_cb 1 pos then Some 1 else None),
      ageIndex = 0\<rparr>"

section \<open>Properties of the loops\<close>

text \<open>
  A loop whose counter reaches its largest value does not end; every other loop
  runs its body on the values from the lower to the upper bound.
\<close>

lemma for_short_Some_not_wraps:
  assumes "for_short body c hi s = Some r"
  shows "\<not> wraps c hi"
proof (rule for_short.raw_induct [where P = "\<lambda>body c hi s r. \<not> wraps c hi", OF _ assms])
  fix loop :: "(int \<Rightarrow> 'a \<Rightarrow> 'a option) \<Rightarrow> int \<Rightarrow> int \<Rightarrow> 'a \<Rightarrow> 'a option"
    and body c hi s r
  assume ih: "\<And>body c hi s r. loop body c hi s = Some r \<Longrightarrow> \<not> wraps c hi"
    and step: "(if c \<le> hi then Option.bind (body c s) (loop body (next_short c) hi) else Some s) = Some r"
  show "\<not> wraps c hi"
  proof
    assume w: "wraps c hi"
    then have "c \<le> hi"
      by (simp add: wraps_def)
    with step obtain s' where "loop body (next_short c) hi s' = Some r"
      by (auto simp: bind_eq_Some_conv)
    then have "\<not> wraps (next_short c) hi"
      by (rule ih)
    with w show False
      by (auto simp: wraps_def next_short_def SHRT_MAX_def SHRT_MIN_def split: if_splits)
  qed
qed

lemma for_short_wraps: "wraps lo hi \<Longrightarrow> for_short body lo hi s = None"
  using for_short_Some_not_wraps [of body lo hi s] by (cases "for_short body lo hi s") auto

lemma for_short_fold:
  "\<not> wraps lo hi \<Longrightarrow> for_short body lo hi s = fold_option body [lo..hi] s"
proof (induction lo hi arbitrary: s rule: upto.induct)
  case (1 i j)
  show ?case
  proof (cases "i \<le> j")
    case True
    with "1.prems" have n: "next_short i = i + 1" and w: "\<not> wraps (i + 1) j"
      by (auto simp: wraps_def next_short_def)
    from True have "[i..j] = i # [i + 1..j]"
      by (rule upto_rec1)
    with True n "1.IH" [OF True w] show ?thesis
      by (subst for_short.simps) (simp cong: Option.bind_cong)
  next
    case False
    then show ?thesis
      by (subst for_short.simps) simp
  qed
qed

lemma for_short_eq:
  "for_short body lo hi s = (if wraps lo hi then None else fold_option body [lo..hi] s)"
  by (simp add: for_short_wraps for_short_fold)

lemma fold_option_Some: "fold_option (\<lambda>x s. Some (f x s)) xs s = Some (fold f xs s)"
  by (induction xs arbitrary: s) simp_all

lemma fold_option_None: "xs \<noteq> [] \<Longrightarrow> fold_option (\<lambda>x s. None) xs s = None"
  by (cases xs) simp_all

lemma wraps_simps [simp]:
  "hi < SHRT_MAX \<Longrightarrow> \<not> wraps lo hi"
  "hi < lo \<Longrightarrow> \<not> wraps lo hi"
  by (simp_all add: wraps_def)

section \<open>Properties of the registry\<close>

lemma insert_column_eq:
  "insert_column p z lo hi x wm =
     (if wraps lo hi then None
      else Some (\<lambda>pos. if pos_x pos = x \<and> pos_z pos = z \<and> lo \<le> pos_y pos \<and> pos_y pos \<le> hi
                        then Some p else wm pos))"
proof -
  have "fold (\<lambda>y m. m(Position x y z \<mapsto> p)) ys wm pos =
      (if pos_x pos = x \<and> pos_z pos = z \<and> pos_y pos \<in> set ys then Some p else wm pos)"
    for ys pos
    by (induction ys arbitrary: wm) (cases pos; auto)+
  then have "fold (\<lambda>y m. m(Position x y z \<mapsto> p)) [lo..hi] wm =
      (\<lambda>pos. if pos_x pos = x \<and> pos_z pos = z \<and> lo \<le> pos_y pos \<and> pos_y pos \<le> hi
              then Some p else wm pos)"
    by (intro ext) simp
  then show ?thesis
    by (simp add: insert_column_def for_short_eq fold_option_Some)
qed

text \<open>
  The loops of \<^verbatim>\<open>InsertMap\<close> end unless the maximum X is the largest value of the
  counter, or the maximum Y is and there is a column to write. When they end the
  dictionary holds the new map at the cells of its rectangle and is unchanged
  elsewhere.
\<close>

lemma insert_cells_eq:
  "insert_cells h p wm =
     (if wraps (Min_X (h p)) (Max_X (h p)) \<or>
         Min_X (h p) \<le> Max_X (h p) \<and> wraps (Min_Y (h p)) (Max_Y (h p))
      then None
      else Some (\<lambda>pos. if covers h p pos then Some p else wm pos))"
proof (cases "wraps (Min_X (h p)) (Max_X (h p))")
  case True
  then show ?thesis
    by (simp add: insert_cells_def for_short_wraps)
next
  case nx: False
  let ?z = "Z_Level (h p)" and ?lo = "Min_Y (h p)" and ?hi = "Max_Y (h p)"
  have run: "insert_cells h p wm =
      fold_option (insert_column p ?z ?lo ?hi) [Min_X (h p)..Max_X (h p)] wm"
    using nx by (simp add: insert_cells_def for_short_fold)
  show ?thesis
  proof (cases "wraps ?lo ?hi")
    case True
    then have "fold_option (insert_column p ?z ?lo ?hi) xs wm = (if xs = [] then Some wm else None)"
      for xs
      by (cases xs) (simp_all add: insert_column_eq)
    moreover have "(\<lambda>pos. if covers h p pos then Some p else wm pos) = wm"
      if "Max_X (h p) < Min_X (h p)"
      using that by (intro ext) (auto simp: covers_def)
    ultimately show ?thesis
      using nx True by (auto simp: run)
  next
    case ny: False
    let ?g = "\<lambda>x wm pos. if pos_x pos = x \<and> pos_z pos = ?z \<and> ?lo \<le> pos_y pos \<and> pos_y pos \<le> ?hi
                          then Some p else wm pos"
    from ny have col: "insert_column p ?z ?lo ?hi = (\<lambda>x wm. Some (?g x wm))"
      by (intro ext) (simp add: insert_column_eq)
    have "fold ?g xs wm pos =
        (if pos_x pos \<in> set xs \<and> pos_z pos = ?z \<and> ?lo \<le> pos_y pos \<and> pos_y pos \<le> ?hi
         then Some p else wm pos)"
      for xs pos
      by (induction xs arbitrary: wm) auto
    then have "fold ?g [Min_X (h p)..Max_X (h p)] wm =
        (\<lambda>pos. if covers h p pos then Some p else wm pos)"
      by (intro ext) (auto simp: covers_def)
    with nx ny show ?thesis
      by (simp add: run col fold_option_Some)
  qed
qed

lemma InsertMap_new:
  assumes "p \<notin> set (maps w)"
  shows "InsertMap h (Some p) w =
     (if wraps (Min_X (h p)) (Max_X (h p)) \<or>
         Min_X (h p) \<le> Max_X (h p) \<and> wraps (Min_Y (h p)) (Max_Y (h p))
      then None
      else Some (True, w\<lparr>maps := maps w @ [p],
                         world_map := (\<lambda>pos. if covers h p pos then Some p else world_map w pos)\<rparr>))"
  using assms by (simp add: InsertMap_def insert_cells_eq)

lemma InsertMap_Some:
  assumes "InsertMap h newMap w = Some (r, w')"
  obtains (rejected) "\<not> r" and "w' = w" and "\<forall>p. newMap = Some p \<longrightarrow> p \<in> set (maps w)"
  | (inserted) p where "r" and "newMap = Some p" and "p \<notin> set (maps w)"
      and "w' = w\<lparr>maps := maps w @ [p],
                   world_map := (\<lambda>pos. if covers h p pos then Some p else world_map w pos)\<rparr>"
proof (cases newMap)
  case None
  with assms rejected show ?thesis
    by (simp add: InsertMap_def)
next
  case (Some p)
  show ?thesis
  proof (cases "p \<in> set (maps w)")
    case True
    with Some assms rejected show ?thesis
      by (simp add: InsertMap_def)
  next
    case False
    with Some assms have "r" and "w' = w\<lparr>maps := maps w @ [p],
        world_map := (\<lambda>pos. if covers h p pos then Some p else world_map w pos)\<rparr>"
      by (simp_all add: InsertMap_new split: if_splits)
    with Some False inserted show ?thesis
      by blast
  qed
qed

lemma InsertMap_returns:
  assumes "Max_X (h p) < SHRT_MAX" and "Max_Y (h p) < SHRT_MAX"
  shows "\<exists>r w'. InsertMap h (Some p) w = Some (r, w')"
proof (cases "p \<in> set (maps w)")
  case True
  then have "InsertMap h (Some p) w = Some (False, w)"
    by (simp add: InsertMap_def)
  then show ?thesis
    by blast
next
  case False
  with assms have "InsertMap h (Some p) w =
      Some (True, w\<lparr>maps := maps w @ [p],
                       world_map := (\<lambda>pos. if covers h p pos then Some p else world_map w pos)\<rparr>)"
    by (simp add: InsertMap_new)
  then show ?thesis
    by blast
qed

text \<open>
  A call with a new map whose rectangle is not empty and reaches the largest X of
  the counter never returns.
\<close>

lemma InsertMap_never_returns:
  assumes "p \<notin> set (maps w)" and "Min_X (h p) \<le> Max_X (h p)" and "Max_X (h p) = SHRT_MAX"
  shows "InsertMap h (Some p) w = None"
  using assms by (simp add: InsertMap_new wraps_def)

lemma set_cells: "set (cells h p) = {pos. covers h p pos}"
proof -
  have "pos \<in> set (cells h p) \<longleftrightarrow> covers h p pos" for pos
    by (cases pos) (auto simp: cells_def covers_def image_iff)
  then show ?thesis
    by blast
qed

lemma registry_inv_iff:
  "registry_inv h w \<longleftrightarrow>
     (\<forall>p \<in> set (maps w). \<forall>pos. covers h p pos \<longrightarrow>
        (\<exists>q \<in> set (maps w). world_map w pos = Some q \<and> covers h q pos))"
  by (simp add: registry_inv_def set_cells)

lemma registry_inv_empty: "registry_inv h empty_world"
  by (simp add: registry_inv_def empty_world_def)

lemma registry_inv_clear: "registry_inv h (clear w)"
  by (simp add: registry_inv_def clear_def)

lemma registry_inv_InsertMap:
  assumes "registry_inv h w" and "InsertMap h newMap w = Some (r, w')"
  shows "registry_inv h w'"
  using assms(2)
proof (cases rule: InsertMap_Some)
  case rejected
  with assms(1) show ?thesis
    by simp
next
  case (inserted p)
  have "\<exists>q \<in> set (maps w'). world_map w' pos = Some q \<and> covers h q pos"
    if r: "r \<in> set (maps w')" and c: "covers h r pos" for r pos
  proof (cases "covers h p pos")
    case True
    with inserted show ?thesis
      by simp
  next
    case outside: False
    with r c inserted have "r \<in> set (maps w)"
      by auto
    with assms(1) c obtain q where "q \<in> set (maps w)" "world_map w pos = Some q" "covers h q pos"
      unfolding registry_inv_iff by blast
    with outside inserted show ?thesis
      by auto
  qed
  then show ?thesis
    unfolding registry_inv_iff by blast
qed

lemma registry_inv_allMapsAged:
  assumes "registry_inv h w"
  shows "registry_inv h (snd (snd (allMapsAged within w)))"
  using assms by (auto simp: allMapsAged_def registry_inv_def split: prod.splits)

lemma reachable_registry_inv: "reachable h w \<Longrightarrow> registry_inv h w"
  by (induction rule: reachable.induct)
    (simp_all add: registry_inv_empty registry_inv_clear registry_inv_InsertMap
      registry_inv_allMapsAged)

text \<open>The two example maps are inserted one after the other.\<close>

lemma insert_map_a: "InsertMap two_maps (Some 0) empty_world = Some (True, world_a)"
  by (simp add: InsertMap_new empty_world_def world_a_def wraps_def SHRT_MAX_def two_maps_def
      map_a_def cong: if_cong)

lemma insert_map_b: "InsertMap two_maps (Some 1) world_a = Some (True, world_ab)"
  by (simp add: InsertMap_new world_a_def world_ab_def wraps_def SHRT_MAX_def two_maps_def
      map_b_def cong: if_cong)

lemma reachable_world_ab: "reachable two_maps world_a" "reachable two_maps world_ab"
proof -
  show a: "reachable two_maps world_a"
    using reachable_empty insert_map_a by (rule reachable_InsertMap)
  show "reachable two_maps world_ab"
    using a insert_map_b by (rule reachable_InsertMap)
qed

text \<open>
  C1. In every reachable state of the registry, every cell inside the bounds of
  every registered map has an entry in the dictionary, at the level of that map, and
  the entry is a registered map whose bounds cover the cell. \<^verbatim>\<open>InsertMap\<close> preserves
  this: when it returns, it has written the new map at every cell of its rectangle,
  whatever was there (the last registration wins), and has left every other entry
  as it was; and it returns for every map whose maxima are below the largest value
  of the counter. \<^verbatim>\<open>clear\<close> preserves it: it empties the sequence and the dictionary.
\<close>

theorem C1_registry_invariant:
  assumes "reachable h w"
  shows "(\<forall>p \<in> set (maps w). \<forall>pos. covers h p pos \<longrightarrow>
            (\<exists>q \<in> set (maps w). world_map w pos = Some q \<and> covers h q pos)) \<and>
         (\<forall>r w'. InsertMap h newMap w = Some (r, w') \<longrightarrow> registry_inv h w') \<and>
         (\<forall>p. Max_X (h p) < SHRT_MAX \<and> Max_Y (h p) < SHRT_MAX \<longrightarrow>
            (\<exists>r w'. InsertMap h (Some p) w = Some (r, w'))) \<and>
         (\<forall>p w'. InsertMap h (Some p) w = Some (True, w') \<longrightarrow>
            (\<forall>pos. world_map w' pos = (if covers h p pos then Some p else world_map w pos))) \<and>
         registry_inv h (clear w) \<and> maps (clear w) = [] \<and> world_map (clear w) = Map.empty"
proof -
  from assms have inv: "registry_inv h w"
    by (rule reachable_registry_inv)
  then have "\<forall>p \<in> set (maps w). \<forall>pos. covers h p pos \<longrightarrow>
      (\<exists>q \<in> set (maps w). world_map w pos = Some q \<and> covers h q pos)"
    by (simp add: registry_inv_iff)
  moreover from inv have "registry_inv h w'" if "InsertMap h newMap w = Some (r, w')" for r w'
    using that by (rule registry_inv_InsertMap)
  moreover have "\<exists>r w'. InsertMap h (Some p) w = Some (r, w')"
    if "Max_X (h p) < SHRT_MAX \<and> Max_Y (h p) < SHRT_MAX" for p
    using that by (simp add: InsertMap_returns)
  moreover have "world_map w' pos = (if covers h p pos then Some p else world_map w pos)"
    if "InsertMap h (Some p) w = Some (True, w')" for p w' pos
    using that by (cases rule: InsertMap_Some) simp_all
  moreover have "registry_inv h (clear w)"
    by (rule registry_inv_clear)
  moreover have "maps (clear w) = [] \<and> world_map (clear w) = Map.empty"
    by (simp add: clear_def)
  ultimately show ?thesis
    by blast
qed

theorem C1_registry_invariant_witness:
  "InsertMap two_maps (Some 0) empty_world = Some (True, world_a) \<and>
   InsertMap two_maps (Some 1) world_a = Some (True, world_ab) \<and>
   reachable two_maps world_ab \<and>
   maps world_ab = [0, 1] \<and>
   world_map world_ab (Position 10 20 0) = Some 0 \<and>
   world_map world_ab (Position 12 21 0) = Some 1 \<and>
   (\<exists>q \<in> set [0, 1].
      world_map world_ab (Position 12 21 0) = Some q \<and> covers two_maps q (Position 12 21 0)) \<and>
   registry_inv two_maps (clear world_ab)"
proof -
  note r = reachable_world_ab(2)
  have m: "maps world_ab = [0, 1]"
    by (simp add: world_ab_def)
  have c: "covers two_maps 0 (Position 12 21 0)"
    by (simp add: covers_def two_maps_def map_a_def)
  have e: "world_map world_ab (Position 10 20 0) = Some 0 \<and>
      world_map world_ab (Position 12 21 0) = Some 1"
    by (simp add: world_ab_def covers_def two_maps_def map_a_def map_b_def)
  note inv = C1_registry_invariant [OF r, of None]
  from inv have "\<forall>p \<in> set (maps world_ab). \<forall>pos. covers two_maps p pos \<longrightarrow>
      (\<exists>q \<in> set (maps world_ab). world_map world_ab pos = Some q \<and> covers two_maps q pos)"
    by (rule conjunct1)
  moreover have "0 \<in> set (maps world_ab)"
    unfolding m by simp
  ultimately have "\<exists>q \<in> set (maps world_ab).
      world_map world_ab (Position 12 21 0) = Some q \<and> covers two_maps q (Position 12 21 0)"
    using c by blast
  then have ex: "\<exists>q \<in> set [0, 1].
      world_map world_ab (Position 12 21 0) = Some q \<and> covers two_maps q (Position 12 21 0)"
    unfolding m .
  from inv have cl: "registry_inv two_maps (clear world_ab)"
    by blast
  from insert_map_a insert_map_b r m e ex cl show ?thesis
    by (intro conjI) simp_all
qed

text \<open>
  C10. \<^verbatim>\<open>InsertMap\<close> called with the null pointer returns false; the sequence, the
  dictionary and the cursor are what they were.
\<close>

theorem C10_insert_null: "InsertMap h None w = Some (False, w)"
  by (simp add: InsertMap_def)

theorem C10_insert_null_witness: "InsertMap two_maps None world_a = Some (False, world_a)"
  by (rule C10_insert_null)

text \<open>
  C3. \<^verbatim>\<open>InsertMap\<close> called with a pointer that is already in the sequence returns
  false and changes nothing: the sequence, hence the number of maps, and the
  dictionary are what they were.
\<close>

theorem C3_insert_duplicate:
  assumes "p \<in> set (maps w)"
  shows "InsertMap h (Some p) w = Some (False, w) \<and>
         (\<forall>r w'. InsertMap h (Some p) w = Some (r, w') \<longrightarrow>
            \<not> r \<and> maps w' = maps w \<and> length (maps w') = length (maps w) \<and>
            world_map w' = world_map w)"
  using assms by (simp add: InsertMap_def)

theorem C3_insert_duplicate_witness:
  "InsertMap two_maps (Some 0) empty_world = Some (True, world_a) \<and>
   InsertMap two_maps (Some 0) world_a = Some (False, world_a) \<and>
   length (maps world_a) = 1"
proof -
  have "0 \<in> set (maps world_a)"
    by (simp add: world_a_def)
  from C3_insert_duplicate [OF this, of two_maps] insert_map_a show ?thesis
    by (simp add: world_a_def)
qed



section \<open>Properties of the range queries\<close>

text \<open>
  C5. In every state of the registry: when the four margins around the centre
  describe the rectangle of \<^verbatim>\<open>mapInRangeOf\<close> (upper left corner = centre - (west,
  north), lower right corner = centre + (east, south), the same level), then
  \<^verbatim>\<open>mapInRangeOf\<close> returns true exactly when \<^verbatim>\<open>findAllMapsInRangeOf\<close> returns a
  list that is not empty.
\<close>

theorem C5_range_queries_agree:
  assumes "pos_x pos - sint rwest = pos_x upperleft"
    and "pos_y pos - sint rnorth = pos_y upperleft"
    and "pos_x pos + sint reast = pos_x upperleft + uint dx - 1"
    and "pos_y pos + sint rsouth = pos_y upperleft + uint dy - 1"
    and "pos_z pos = pos_z upperleft"
  shows "mapInRangeOf h w upperleft dx dy \<longleftrightarrow>
         findAllMapsInRangeOf h w rnorth rsouth reast rwest pos \<noteq> []"
  using assms
  by (simp add: mapInRangeOf_def findAllMapsInRangeOf_def to_MAP_POSITION_def
      list_ex_iff filter_empty_conv)

theorem C5_range_queries_agree_witness:
  "mapInRangeOf two_maps world_ab (Position 11 19 0) 3 2 = True \<and>
   findAllMapsInRangeOf two_maps world_ab 1 0 1 1 (Position 12 20 0) = [0] \<and>
   mapInRangeOf two_maps world_ab (Position 11 19 1) 3 2 = False \<and>
   findAllMapsInRangeOf two_maps world_ab 1 0 1 1 (Position 12 20 1) = []"
proof -
  let ?w = world_ab
  have m: "maps ?w = [0, 1]"
    by (simp add: world_ab_def)
  have f0: "findAllMapsInRangeOf two_maps ?w 1 0 1 1 (Position 12 20 0) = [0]"
    unfolding findAllMapsInRangeOf_def m
    by (simp add: two_maps_def map_a_def map_b_def rect_intersects_def)
  have f1: "findAllMapsInRangeOf two_maps ?w 1 0 1 1 (Position 12 20 1) = []"
    unfolding findAllMapsInRangeOf_def m
    by (simp add: two_maps_def map_a_def map_b_def rect_intersects_def)
  have "mapInRangeOf two_maps ?w (Position 11 19 0) 3 2 \<longleftrightarrow>
      findAllMapsInRangeOf two_maps ?w 1 0 1 1 (Position 12 20 0) \<noteq> []"
    by (rule C5_range_queries_agree) simp_all
  moreover have "mapInRangeOf two_maps ?w (Position 11 19 1) 3 2 \<longleftrightarrow>
      findAllMapsInRangeOf two_maps ?w 1 0 1 1 (Position 12 20 1) \<noteq> []"
    by (rule C5_range_queries_agree) simp_all
  ultimately show ?thesis
    using f0 f1 by simp
qed

section \<open>Properties of the aging sweep\<close>

lemma age_loop_cursor:
  "i \<le> fst (age_loop within j ms i aged) \<and>
   (i \<le> length ms \<longrightarrow> fst (age_loop within j ms i aged) \<le> length ms)"
proof (induction within j ms i aged rule: age_loop.induct)
  case (1 within j ms i aged)
  show ?case
  proof (cases "i < length ms \<and> within j")
    case True
    with "1" show ?thesis
      by (subst (1 2) age_loop.simps) auto
  next
    case False
    then show ?thesis
      by (subst (1 2) age_loop.simps) auto
  qed
qed

lemma age_loop_aged:
  "snd (age_loop within j ms i aged) =
     aged @ take (fst (age_loop within j ms i aged) - i) (drop i ms)"
proof (induction within j ms i aged rule: age_loop.induct)
  case (1 within j ms i aged)
  show ?case
  proof (cases "i < length ms \<and> within j")
    case True
    let ?k = "fst (age_loop within (Suc j) ms (Suc i) (aged @ [ms ! i]))"
    from True have step: "age_loop within j ms i aged =
        age_loop within (Suc j) ms (Suc i) (aged @ [ms ! i])"
      by (subst age_loop.simps) simp
    have "Suc i \<le> ?k"
      using age_loop_cursor by blast
    then obtain d where d: "?k - i = Suc d" "?k - Suc i = d"
      by (cases "?k - i") auto
    from True have "drop i ms = ms ! i # drop (Suc i) ms"
      by (simp add: Cons_nth_drop_Suc)
    with "1" True d show ?thesis
      unfolding step by simp
  next
    case False
    then show ?thesis
      by (subst (1 2) age_loop.simps) auto
  qed
qed

text \<open>One call, from a cursor inside the sequence.\<close>

lemma allMapsAged_call:
  assumes "ageIndex v \<le> length (maps v)" and "allMapsAged within v = (r, aged, v')"
  shows "maps v' = maps v" and "world_map v' = world_map v"
    and "aged = take (length aged) (drop (ageIndex v) (maps v))"
    and "ageIndex v + length aged \<le> length (maps v)"
    and "r \<longleftrightarrow> \<not> ageIndex v + length aged < length (maps v)"
    and "ageIndex v' = (if r then 0 else ageIndex v + length aged)"
proof -
  obtain i a where l: "age_loop within 0 (maps v) (ageIndex v) [] = (i, a)"
    by (cases "age_loop within 0 (maps v) (ageIndex v) []")
  from age_loop_cursor [of "ageIndex v" within 0 "maps v" "[]"] assms(1) l
  have b: "ageIndex v \<le> i" "i \<le> length (maps v)"
    by auto
  from age_loop_aged [of within 0 "maps v" "ageIndex v" "[]"] l
  have a: "a = take (i - ageIndex v) (drop (ageIndex v) (maps v))"
    by simp
  with b have n: "length a = i - ageIndex v"
    by simp
  from assms(2) l have res: "aged = a" "r \<longleftrightarrow> \<not> i < length (maps v)"
    "v' = (if i < length (maps v) then v\<lparr>ageIndex := i\<rparr> else v\<lparr>ageIndex := 0\<rparr>)"
    by (auto simp: allMapsAged_def split: if_splits)
  from res show "maps v' = maps v" and "world_map v' = world_map v"
    by auto
  from res a n show "aged = take (length aged) (drop (ageIndex v) (maps v))"
    by simp
  from res n b show "ageIndex v + length aged \<le> length (maps v)"
    and "r \<longleftrightarrow> \<not> ageIndex v + length aged < length (maps v)"
    and "ageIndex v' = (if r then 0 else ageIndex v + length aged)"
    by auto
qed

text \<open>
  The maps aged by a sequence of calls, after the part of the sweep that was done
  before it: as many whole sweeps as calls returned true, and the part of the next
  sweep up to the cursor.
\<close>

lemma sweep_aged:
  assumes "ageIndex w \<le> length (maps w)" and "sweep cs w = (rs, w')"
  shows "maps w' = maps w \<and> ageIndex w' \<le> length (maps w) \<and>
         take (ageIndex w) (maps w) @ concat (map snd rs) =
           concat (replicate (length (filter fst rs)) (maps w)) @ take (ageIndex w') (maps w)"
  using assms
proof (induction cs arbitrary: w rs)
  case Nil
  then show ?case
    by simp
next
  case (Cons c cs)
  obtain r aged v where call: "allMapsAged c w = (r, aged, v)"
    by (cases "allMapsAged c w")
  obtain rs' where rest: "sweep cs v = (rs', w')" and rs: "rs = (r, aged) # rs'"
    using Cons.prems(2) call by (auto split: prod.splits)
  note c = allMapsAged_call [OF Cons.prems(1) call]
  from c have v: "ageIndex v \<le> length (maps v)"
    by (auto split: if_splits)
  from Cons.IH [OF v rest] c(1)
  have ih: "maps w' = maps w" "ageIndex w' \<le> length (maps w)"
    "take (ageIndex v) (maps w) @ concat (map snd rs') =
       concat (replicate (length (filter fst rs')) (maps w)) @ take (ageIndex w') (maps w)"
    by simp_all
  have "take (ageIndex w) (maps w) @ aged = take (ageIndex w + length aged) (maps w)"
    by (subst c(3)) (simp add: take_add)
  also have "\<dots> = (if r then maps w else []) @ take (ageIndex v) (maps w)"
    using c(4-6) by auto
  finally have "take (ageIndex w) (maps w) @ concat (map snd rs) =
      (if r then maps w else []) @ take (ageIndex v) (maps w) @ concat (map snd rs')"
    by (simp add: rs)
  with ih show ?case
    by (simp add: rs)
qed

lemma reachable_distinct: "reachable h w \<Longrightarrow> distinct (maps w)"
proof (induction rule: reachable.induct)
  case reachable_empty
  show ?case
    by (simp add: empty_world_def)
next
  case (reachable_InsertMap w newMap r w')
  from reachable_InsertMap(2) show ?case
    by (cases rule: InsertMap_Some) (use reachable_InsertMap(3) in simp_all)
next
  case (reachable_clear w)
  show ?case
    by (simp add: clear_def)
next
  case (reachable_allMapsAged w within)
  then show ?case
    by (simp add: allMapsAged_def split: prod.splits)
qed

lemma distinct_count_list: "distinct xs \<Longrightarrow> x \<in> set xs \<Longrightarrow> count_list xs x = 1"
  by (induction xs) auto

lemma sweep_append:
  "sweep (cs @ ds) w =
     (case sweep cs w of (rs, v) \<Rightarrow> (case sweep ds v of (rs', v') \<Rightarrow> (rs @ rs', v')))"
  by (induction cs arbitrary: w) (auto split: prod.splits)

lemma sweep_length: "sweep cs w = (rs, w') \<Longrightarrow> length rs = length cs"
  by (induction cs arbitrary: w rs) (auto split: prod.splits)

text \<open>The call number \<open>k\<close> of a sequence, between the calls before it and after it.\<close>

lemma sweep_nth:
  assumes "sweep cs w = (rs, w')" and "k < length rs"
  obtains v v' where "sweep (take k cs) w = (take k rs, v)"
    and "allMapsAged (cs ! k) v = (fst (rs ! k), snd (rs ! k), v')"
    and "sweep (take (Suc k) cs) w = (take (Suc k) rs, v')"
    and "sweep (drop (Suc k) cs) v' = (drop (Suc k) rs, w')"
proof -
  from assms have k: "k < length cs"
    by (simp add: sweep_length)
  then have split: "cs = take k cs @ [cs ! k] @ drop (Suc k) cs"
    by (simp add: Cons_nth_drop_Suc)
  obtain r1 v where a: "sweep (take k cs) w = (r1, v)"
    by (cases "sweep (take k cs) w")
  obtain r aged v' where b: "allMapsAged (cs ! k) v = (r, aged, v')"
    by (cases "allMapsAged (cs ! k) v")
  obtain r3 v'' where c: "sweep (drop (Suc k) cs) v' = (r3, v'')"
    by (cases "sweep (drop (Suc k) cs) v'")
  have "sweep cs w = (r1 @ [(r, aged)] @ r3, v'')"
    by (subst split) (simp add: sweep_append a b c)
  with assms(1) have eq: "rs = r1 @ [(r, aged)] @ r3" "w' = v''"
    by simp_all
  from a k have l1: "length r1 = k"
    by (simp add: sweep_length)
  with eq have t: "take k rs = r1" "rs ! k = (r, aged)" "take (Suc k) rs = r1 @ [(r, aged)]"
    "drop (Suc k) rs = r3"
    by (simp_all add: nth_append)
  have "sweep (take (Suc k) cs) w = (r1 @ [(r, aged)], v')"
    using k by (simp add: take_Suc_conv_app_nth sweep_append a b)
  with a b c t eq(2) that show thesis
    by simp
qed

text \<open>The state after the call number \<open>k\<close> of a sequence that began at cursor 0.\<close>

lemma sweep_prefix:
  assumes "ageIndex w = 0" and "sweep cs w = (rs, w')" and "k < length rs"
  obtains v' where "sweep (take (Suc k) cs) w = (take (Suc k) rs, v')"
    and "maps v' = maps w" and "ageIndex v' \<le> length (maps w)"
    and "fst (rs ! k) \<longrightarrow> ageIndex v' = 0"
    and "\<not> fst (rs ! k) \<longrightarrow> ageIndex v' < length (maps w)"
    and "concat (map snd (take (Suc k) rs)) =
           concat (replicate (length (filter fst (take (Suc k) rs))) (maps w)) @
           take (ageIndex v') (maps w)"
proof -
  from assms(2,3) obtain v v' where p: "sweep (take k cs) w = (take k rs, v)"
    and c: "allMapsAged (cs ! k) v = (fst (rs ! k), snd (rs ! k), v')"
    and q: "sweep (take (Suc k) cs) w = (take (Suc k) rs, v')"
    by (rule sweep_nth)
  from assms(1) have w: "ageIndex w \<le> length (maps w)"
    by simp
  from sweep_aged [OF w p] have v: "maps v = maps w" "ageIndex v \<le> length (maps v)"
    by simp_all
  note call = allMapsAged_call [OF v(2) c]
  from sweep_aged [OF w q] assms(1)
  have "maps v' = maps w" "ageIndex v' \<le> length (maps w)"
    "concat (map snd (take (Suc k) rs)) =
       concat (replicate (length (filter fst (take (Suc k) rs))) (maps w)) @
       take (ageIndex v') (maps w)"
    by simp_all
  moreover from call(6) have "fst (rs ! k) \<longrightarrow> ageIndex v' = 0"
    by simp
  moreover from call(5,6) v(1) have "\<not> fst (rs ! k) \<longrightarrow> ageIndex v' < length (maps w)"
    by simp
  ultimately show thesis
    using q that by blast
qed

lemma filter_fst_take:
  assumes "k < length rs" and "\<forall>j < k. \<not> fst (rs ! j)"
  shows "filter fst (take (Suc k) rs) = (if fst (rs ! k) then [rs ! k] else [])"
proof -
  have "\<not> fst x" if "x \<in> set (take k rs)" for x
  proof -
    from that obtain j where "j < length (take k rs)" "take k rs ! j = x"
      by (auto simp: in_set_conv_nth)
    with assms show ?thesis
      by auto
  qed
  then have "filter fst (take k rs) = []"
    by (simp add: filter_empty_conv)
  with assms(1) show ?thesis
    by (simp add: take_Suc_conv_app_nth)
qed

text \<open>
  C2. A registry whose cursor is at 0 holds distinct maps (so does every reachable
  one). Take any sequence of calls of \<^verbatim>\<open>allMapsAged\<close> on it, each with any behaviour
  of the clock, and no other operation in between. Then

  \<^item> at the first call that returns true, the calls so far have aged the registered
    maps in their order, each of them exactly once;
  \<^item> as long as every call has returned false, the calls so far have aged a proper
    initial part of the sequence, once each;
  \<^item> the call after one that returned true ages an initial part of the sequence: it
    starts again from the first map;
  \<^item> a call, from any cursor inside the sequence, ages the maps from the cursor on,
    keeps the sequence and the dictionary, and returns false exactly when the cursor
    is still before the end after its loop; it then leaves the cursor there, and
    otherwise sets it to 0.
\<close>

theorem C2_aging_sweep:
  assumes "ageIndex w = 0" and "distinct (maps w)" and "sweep cs w = (rs, w')"
  shows "(\<forall>k < length rs. fst (rs ! k) \<and> (\<forall>j < k. \<not> fst (rs ! j)) \<longrightarrow>
            concat (map snd (take (Suc k) rs)) = maps w \<and>
            (\<forall>p \<in> set (maps w). count_list (concat (map snd (take (Suc k) rs))) p = 1)) \<and>
         (\<forall>k < length rs. (\<forall>j \<le> k. \<not> fst (rs ! j)) \<longrightarrow>
            (\<exists>i < length (maps w). concat (map snd (take (Suc k) rs)) = take i (maps w))) \<and>
         (\<forall>k. Suc k < length rs \<and> fst (rs ! k) \<longrightarrow>
            snd (rs ! Suc k) = take (length (snd (rs ! Suc k))) (maps w)) \<and>
         (\<forall>within v r aged v'.
            ageIndex v \<le> length (maps v) \<and> allMapsAged within v = (r, aged, v') \<longrightarrow>
              aged = take (length aged) (drop (ageIndex v) (maps v)) \<and>
              maps v' = maps v \<and> world_map v' = world_map v \<and>
              (r \<longleftrightarrow> \<not> ageIndex v + length aged < length (maps v)) \<and>
              ageIndex v' = (if r then 0 else ageIndex v + length aged))"
proof (intro conjI allI impI)
  fix k
  assume k: "k < length rs" and first: "fst (rs ! k) \<and> (\<forall>j < k. \<not> fst (rs ! j))"
  from assms(1,3) k obtain v' where "sweep (take (Suc k) cs) w = (take (Suc k) rs, v')"
    and "maps v' = maps w" and "ageIndex v' \<le> length (maps w)"
    and "fst (rs ! k) \<longrightarrow> ageIndex v' = 0"
    and "\<not> fst (rs ! k) \<longrightarrow> ageIndex v' < length (maps w)"
    and "concat (map snd (take (Suc k) rs)) =
           concat (replicate (length (filter fst (take (Suc k) rs))) (maps w)) @
           take (ageIndex v') (maps w)"
    by (rule sweep_prefix)
  with first filter_fst_take [of k rs] k
  show all: "concat (map snd (take (Suc k) rs)) = maps w"
    by simp
  show "\<forall>p \<in> set (maps w). count_list (concat (map snd (take (Suc k) rs))) p = 1"
    unfolding all using assms(2) by (simp add: distinct_count_list)
next
  fix k
  assume k: "k < length rs" and none: "\<forall>j \<le> k. \<not> fst (rs ! j)"
  from assms(1,3) k obtain v' where "sweep (take (Suc k) cs) w = (take (Suc k) rs, v')"
    and "maps v' = maps w" and "ageIndex v' \<le> length (maps w)"
    and "fst (rs ! k) \<longrightarrow> ageIndex v' = 0"
    and "\<not> fst (rs ! k) \<longrightarrow> ageIndex v' < length (maps w)"
    and "concat (map snd (take (Suc k) rs)) =
           concat (replicate (length (filter fst (take (Suc k) rs))) (maps w)) @
           take (ageIndex v') (maps w)"
    by (rule sweep_prefix)
  moreover from none have "\<not> fst (rs ! k)" "\<forall>j < k. \<not> fst (rs ! j)"
    by simp_all
  ultimately have "ageIndex v' < length (maps w)"
    "concat (map snd (take (Suc k) rs)) = take (ageIndex v') (maps w)"
    using filter_fst_take [of k rs] k by simp_all
  then show "\<exists>i < length (maps w). concat (map snd (take (Suc k) rs)) = take i (maps w)"
    by blast
next
  fix k
  assume "Suc k < length rs \<and> fst (rs ! k)"
  then have k: "k < length rs" and k': "Suc k < length rs" and r: "fst (rs ! k)"
    by simp_all
  from assms(1,3) k obtain v where "sweep (take (Suc k) cs) w = (take (Suc k) rs, v)"
    and "maps v = maps w" and "ageIndex v \<le> length (maps w)"
    and "fst (rs ! k) \<longrightarrow> ageIndex v = 0"
    and "\<not> fst (rs ! k) \<longrightarrow> ageIndex v < length (maps w)"
    and "concat (map snd (take (Suc k) rs)) =
           concat (replicate (length (filter fst (take (Suc k) rs))) (maps w)) @
           take (ageIndex v) (maps w)"
    by (rule sweep_prefix)
  with r have v: "sweep (take (Suc k) cs) w = (take (Suc k) rs, v)" "maps v = maps w"
    "ageIndex v = 0"
    by simp_all
  from assms(3) k' obtain u u' where "sweep (take (Suc k) cs) w = (take (Suc k) rs, u)"
    and "allMapsAged (cs ! Suc k) u = (fst (rs ! Suc k), snd (rs ! Suc k), u')"
    by (rule sweep_nth)
  with v have call: "allMapsAged (cs ! Suc k) v = (fst (rs ! Suc k), snd (rs ! Suc k), u')"
    by simp
  from v have "ageIndex v \<le> length (maps v)"
    by simp
  from allMapsAged_call(3) [OF this call] v
  show "snd (rs ! Suc k) = take (length (snd (rs ! Suc k))) (maps w)"
    by simp
next
  fix within v r aged v'
  assume "ageIndex v \<le> length (maps v) \<and> allMapsAged within v = (r, aged, v')"
  then have a: "ageIndex v \<le> length (maps v)" and b: "allMapsAged within v = (r, aged, v')"
    by simp_all
  note call = allMapsAged_call [OF a b]
  show "aged = take (length aged) (drop (ageIndex v) (maps v))"
    by (rule call)
  show "maps v' = maps v"
    by (rule call)
  show "world_map v' = world_map v"
    by (rule call)
  show "r \<longleftrightarrow> \<not> ageIndex v + length aged < length (maps v)"
    by (rule call)
  show "ageIndex v' = (if r then 0 else ageIndex v + length aged)"
    by (rule call)
qed

theorem C2_aging_sweep_witness:
  "sweep [\<lambda>j. j < 2, \<lambda>j. False, \<lambda>j. True, \<lambda>j. j < 1]
     \<lparr>maps = [0, 1, 2], world_map = Map.empty, ageIndex = 0\<rparr> =
     ([(False, [0, 1]), (False, []), (True, [2]), (False, [0])],
      \<lparr>maps = [0, 1, 2], world_map = Map.empty, ageIndex = 1\<rparr>) \<and>
   concat (map snd (take (Suc 2) [(False, [0, 1]), (False, []), (True, [2]), (False, [0::nat])])) =
     [0, 1, 2] \<and>
   count_list
     (concat (map snd (take (Suc 2) [(False, [0, 1]), (False, []), (True, [2]), (False, [0::nat])]))) 1 = 1"
proof -
  let ?w = "\<lparr>maps = [0, 1, 2], world_map = Map.empty, ageIndex = 0\<rparr>"
  let ?rs = "[(False, [0, 1]), (False, []), (True, [2]), (False, [0::nat])]"
  have run: "sweep [\<lambda>j. j < 2, \<lambda>j. False, \<lambda>j. True, \<lambda>j. j < 1] ?w =
      (?rs, \<lparr>maps = [0, 1, 2], world_map = Map.empty, ageIndex = 1\<rparr>)"
    by (simp add: allMapsAged_def age_loop.simps)
  have "ageIndex ?w = 0" and "distinct (maps ?w)"
    by simp_all
  from C2_aging_sweep [OF this run]
  have "\<forall>k < length ?rs. fst (?rs ! k) \<and> (\<forall>j < k. \<not> fst (?rs ! j)) \<longrightarrow>
      concat (map snd (take (Suc k) ?rs)) = maps ?w \<and>
      (\<forall>p \<in> set (maps ?w). count_list (concat (map snd (take (Suc k) ?rs))) p = 1)"
    by (rule conjunct1)
  moreover have "(2::nat) < length ?rs" and "fst (?rs ! 2) \<and> (\<forall>j < 2. \<not> fst (?rs ! j))"
    by (simp_all add: less_Suc_eq numeral_2_eq_2)
  ultimately have "concat (map snd (take (Suc 2) ?rs)) = maps ?w \<and>
      (\<forall>p \<in> set (maps ?w). count_list (concat (map snd (take (Suc 2) ?rs))) p = 1)"
    by blast
  with run show ?thesis
    by simp
qed

text \<open>
  The hypothesis on the cursor is needed. \<^verbatim>\<open>clear\<close> empties the sequence and keeps
  the cursor, so a sweep that was under way when the registry was cleared leaves a
  cursor that the next sweep inherits: with the cursor at 2, a call on three maps
  ages the third one only and returns true.
\<close>

lemma clear_keeps_cursor: "ageIndex (clear w) = ageIndex w"
  by (simp add: clear_def)

lemma allMapsAged_stale_cursor:
  "allMapsAged (\<lambda>j. True) \<lparr>maps = [3, 4, 5], world_map = wm, ageIndex = 2\<rparr> =
     (True, [5], \<lparr>maps = [3, 4, 5], world_map = wm, ageIndex = 0\<rparr>)"
  by (simp add: allMapsAged_def age_loop.simps)

section \<open>Properties of the escaping\<close>

lemma replace_all_char:
  "replace_all s [c] f = concat (map (\<lambda>x. if x = c then f else [x]) s)"
proof (induction s)
  case Nil
  show ?case
    by (subst replace_all.simps) simp
next
  case (Cons x s)
  then show ?case
    by (subst replace_all.simps) simp
qed

lemma concat_map_concat_map:
  "concat (map g (concat (map f s))) = concat (map (\<lambda>x. concat (map g (f x))) s)"
  by (induction s) simp_all

lemma escape_eq: "escape s = concat (map escape_char s)"
proof -
  have "concat (map (\<lambda>x. if x = CHR '';'' then [backslash, CHR '';''] else [x])
          (concat (map (\<lambda>x. if x = CHR ''='' then [backslash, CHR ''=''] else [x])
            (if c = backslash then [backslash, backslash] else [c])))) = escape_char c" for c
    by (simp add: escape_char_def)
  then show ?thesis
    by (simp add: escape_def replace_all_char concat_map_concat_map)
qed

lemma well_escaped_escape_char: "well_escaped (escape_char c @ t) = well_escaped t"
  by (cases t) (auto simp: escape_char_def)

lemma unescape_escape_char: "unescape (escape_char c @ t) = c # unescape t"
  by (cases t) (auto simp: escape_char_def)

text \<open>
  C6. The exporter escapes a key and a value by three substitutions in this order:
  backslash to two backslashes, then \<open>=\<close> to backslash \<open>=\<close>, then \<open>;\<close> to backslash
  \<open>;\<close>. The result replaces each of the three characters by its escape sequence and
  keeps every other character, so it is made of escape sequences and of characters
  that are none of the three, and it reads back as the original. For the key
  \<^verbatim>\<open>a=b;c\d\<close> and the value \<^verbatim>\<open>x\y\<close> the exporter writes \<^verbatim>\<open>;a\=b\;c\\d=x\\y\<close>.
\<close>

theorem C6_escaping:
  "escape s =
     replace_all (replace_all (replace_all s [backslash] [backslash, backslash])
       ''='' [backslash, CHR ''='']) '';'' [backslash, CHR '';''] \<and>
   escape s = concat (map escape_char s) \<and>
   well_escaped (escape s) \<and>
   unescape (escape s) = s \<and>
   export_data (k, v) = '';'' @ escape k @ ''='' @ escape v \<and>
   well_escaped (escape k) \<and> well_escaped (escape v) \<and>
   export_data (''a=b;c'' @ [backslash] @ ''d'', ''x'' @ [backslash] @ ''y'') =
     '';a'' @ [backslash] @ ''=b'' @ [backslash] @ '';c'' @ [backslash, backslash] @ ''d=x'' @
     [backslash, backslash] @ ''y''"
proof -
  have w: "well_escaped (concat (map escape_char t))" for t
    by (induction t) (simp_all add: well_escaped_escape_char)
  have u: "unescape (concat (map escape_char t)) = t" for t
    by (induction t) (simp_all add: unescape_escape_char)
  have a: "escape s =
      replace_all (replace_all (replace_all s [backslash] [backslash, backslash])
        ''='' [backslash, CHR ''='']) '';'' [backslash, CHR '';'']"
    by (simp add: escape_def)
  have b: "well_escaped (escape t)" for t
    by (simp add: escape_eq w)
  have c: "unescape (escape s) = s"
    by (simp add: escape_eq u)
  have d: "export_data (k, v) = '';'' @ escape k @ ''='' @ escape v"
    by (simp add: export_data_def)
  have e: "export_data (''a=b;c'' @ [backslash] @ ''d'', ''x'' @ [backslash] @ ''y'') =
      '';a'' @ [backslash] @ ''=b'' @ [backslash] @ '';c'' @ [backslash, backslash] @ ''d=x'' @
      [backslash, backslash] @ ''y''"
    by (simp add: export_data_def escape_eq escape_char_def)
  from a escape_eq [of s] b [of s] c d b [of k] b [of v] e show ?thesis
    by (intro conjI)
qed

theorem C6_escaping_witness:
  "escape (''a=b;c'' @ [backslash] @ ''d'') =
     ''a'' @ [backslash] @ ''=b'' @ [backslash] @ '';c'' @ [backslash, backslash] @ ''d'' \<and>
   escape (''x'' @ [backslash] @ ''y'') = ''x'' @ [backslash, backslash] @ ''y'' \<and>
   well_escaped (''a'' @ [backslash] @ ''=b'' @ [backslash] @ '';c'' @ [backslash, backslash] @ ''d'') \<and>
   unescape (''a'' @ [backslash] @ ''=b'' @ [backslash] @ '';c'' @ [backslash, backslash] @ ''d'') =
     ''a=b;c'' @ [backslash] @ ''d''"
proof -
  have e: "escape (''a=b;c'' @ [backslash] @ ''d'') =
      ''a'' @ [backslash] @ ''=b'' @ [backslash] @ '';c'' @ [backslash, backslash] @ ''d''"
    by (simp add: escape_def replace_all.simps)
  have f: "escape (''x'' @ [backslash] @ ''y'') = ''x'' @ [backslash, backslash] @ ''y''"
    by (simp add: escape_def replace_all.simps)
  from C6_escaping [of "''a=b;c'' @ [backslash] @ ''d''"] e f show ?thesis
    by simp
qed

section \<open>Properties of the export\<close>

text \<open>
  The loops of \<^verbatim>\<open>exportTo\<close> over the cells of a map end unless the maximum Y is the
  largest value of the counter, or the maximum X is and there is a row to write.
\<close>

lemma export_streams_eq:
  "export_streams m =
     (if wraps (GetMinY m) (GetMaxY m) \<or>
         GetMinY m \<le> GetMaxY m \<and> wraps (GetMinX m) (GetMaxX m)
      then None
      else Some (export_cells m))"
proof (cases "wraps (GetMinY m) (GetMaxY m)")
  case True
  then show ?thesis
    by (simp add: export_streams_def for_short_wraps)
next
  case ny: False
  let ?row = "\<lambda>y st. for_short (\<lambda>x st. Some (export_cell m (GetMinX m) (GetMinY m) y x st))
    (GetMinX m) (GetMaxX m) st"
  let ?init = "\<lparr>fieldsf = export_header m, itemsf = [], warpsf = []\<rparr>"
  have run: "export_streams m = fold_option ?row [GetMinY m..GetMaxY m] ?init"
    using ny by (simp add: export_streams_def for_short_fold)
  show ?thesis
  proof (cases "wraps (GetMinX m) (GetMaxX m)")
    case True
    then have "?row = (\<lambda>y st. None)"
      by (intro ext) (simp add: for_short_wraps)
    then have "fold_option ?row ys ?init = (if ys = [] then Some ?init else None)" for ys
      by (cases ys) simp_all
    moreover have "export_cells m = ?init" if "GetMaxY m < GetMinY m"
      using that by (simp add: export_cells_def)
    ultimately show ?thesis
      using ny True by (auto simp: run)
  next
    case nx: False
    then have "?row =
        (\<lambda>y st. Some (fold (export_cell m (GetMinX m) (GetMinY m) y) [GetMinX m..GetMaxX m] st))"
      by (intro ext) (simp add: for_short_fold fold_option_Some)
    with nx ny show ?thesis
      by (simp add: run fold_option_Some export_cells_def)
  qed
qed

lemma export_streams_returns:
  assumes "GetMaxX m < SHRT_MAX" and "GetMaxY m < SHRT_MAX"
  shows "export_streams m = Some (export_cells m)"
  using assms by (simp add: export_streams_eq)

lemma export_map_closed:
  assumes "\<not> openable can_open dir m"
  shows "export_map can_open dir m fs =
           Some (False, \<lambda>f. if f \<in> set (stream_paths dir m) \<and> can_open f then Some [] else fs f)"
proof -
  have "open_out can_open (filebase dir m @ ''warps.txt'')
      (open_out can_open (filebase dir m @ ''items.txt'')
        (open_out can_open (filebase dir m @ ''tiles.txt'') fs)) =
      (\<lambda>f. if f \<in> set (stream_paths dir m) \<and> can_open f then Some [] else fs f)"
    by (intro ext) (auto simp: open_out_def stream_paths_def)
  with assms show ?thesis
    by (auto simp: export_map_def openable_def stream_paths_def Let_def)
qed

lemma export_map_open:
  assumes "openable can_open dir m"
  shows "export_map can_open dir m fs =
           (case export_streams m of
              None \<Rightarrow> None
            | Some st \<Rightarrow>
                Some (True, fs(filebase dir m @ ''tiles.txt'' \<mapsto> fieldsf st,
                               filebase dir m @ ''items.txt'' \<mapsto> itemsf st,
                               filebase dir m @ ''warps.txt'' \<mapsto> warpsf st)))"
proof -
  from assms have "open_out can_open (filebase dir m @ ''warps.txt'')
      (open_out can_open (filebase dir m @ ''items.txt'')
        (open_out can_open (filebase dir m @ ''tiles.txt'') fs)) =
      fs(filebase dir m @ ''tiles.txt'' \<mapsto> [], filebase dir m @ ''items.txt'' \<mapsto> [],
         filebase dir m @ ''warps.txt'' \<mapsto> [])"
    by (simp add: open_out_def openable_def stream_paths_def)
  moreover have "fs(t \<mapsto> [], i \<mapsto> [], w \<mapsto> [], t \<mapsto> a, i \<mapsto> b, w \<mapsto> c) = fs(t \<mapsto> a, i \<mapsto> b, w \<mapsto> c)"
    for t i w :: string and a b c :: string
    by (intro ext) simp
  ultimately show ?thesis
    using assms
    by (simp add: export_map_def openable_def stream_paths_def Let_def split: option.splits)
qed

lemma export_maps_append:
  "export_maps can_open h dir (ps @ qs) fs =
     (case export_maps can_open h dir ps fs of
        None \<Rightarrow> None
      | Some (False, fs') \<Rightarrow> Some (False, fs')
      | Some (True, fs') \<Rightarrow> export_maps can_open h dir qs fs')"
  by (induction ps arbitrary: fs) (auto split: option.splits prod.splits bool.splits)

lemma export_maps_returns:
  assumes "\<forall>p \<in> set ps. openable can_open dir (h p) \<and> export_streams (h p) \<noteq> None"
  shows "\<exists>fs'. export_maps can_open h dir ps fs = Some (True, fs')"
  using assms
proof (induction ps arbitrary: fs)
  case Nil
  show ?case
    by simp
next
  case (Cons p ps)
  then obtain st where "export_streams (h p) = Some st" and "openable can_open dir (h p)"
    by auto
  with Cons show ?case
    by (simp add: export_map_open)
qed

text \<open>
  What \<^verbatim>\<open>exportTo\<close> does when the loops over the cells of the maps it visits end:
  it returns true when every stream can be opened; at the first map with a stream
  that cannot be opened it returns false, and the files are as the maps before it
  left them, but for the streams of that map that could be opened, which are empty
  files.
\<close>

lemma exportTo_all_open:
  assumes "\<forall>p \<in> set (maps w). openable can_open dir (h p) \<and> export_streams (h p) \<noteq> None"
  shows "\<exists>fs'. exportTo can_open h dir w fs = Some (True, fs')"
  using assms by (simp add: exportTo_def export_maps_returns)

lemma exportTo_failure:
  assumes "maps w = ps @ p # qs"
    and "\<forall>q \<in> set ps. openable can_open dir (h q) \<and> export_streams (h q) \<noteq> None"
    and "\<not> openable can_open dir (h p)"
  shows "\<exists>fs0. exportTo can_open h dir (w\<lparr>maps := ps\<rparr>) fs = Some (True, fs0) \<and>
           exportTo can_open h dir w fs =
             Some (False, \<lambda>f. if f \<in> set (stream_paths dir (h p)) \<and> can_open f then Some []
                               else fs0 f)"
proof -
  from assms(2) obtain fs0 where "export_maps can_open h dir ps fs = Some (True, fs0)"
    using export_maps_returns by blast
  with assms(1,3) show ?thesis
    by (simp add: exportTo_def export_maps_append export_map_closed)
qed

text \<open>
  When the loops over the cells of a map do not end, \<^verbatim>\<open>exportTo\<close> does not return,
  whatever the streams of the maps behind it.
\<close>

lemma exportTo_never_returns:
  assumes "maps w = ps @ p # qs"
    and "\<forall>q \<in> set ps. openable can_open dir (h q) \<and> export_streams (h q) \<noteq> None"
    and "openable can_open dir (h p)" and "export_streams (h p) = None"
  shows "exportTo can_open h dir w fs = None"
proof -
  from assms(2) obtain fs0 where "export_maps can_open h dir ps fs = Some (True, fs0)"
    using export_maps_returns by blast
  with assms(1,3,4) show ?thesis
    by (simp add: exportTo_def export_maps_append export_map_open)
qed

text \<open>
  The export of the two example maps, where the item stream of the second one cannot
  be opened: the loops end, the call returns false, and the files of the first map
  are on the disk.
\<close>

lemmas export_eval =
  export_cells_def map_a_def map_b_def fields_a_def plain_field_def export_cell_def
  export_header_def export_item_def export_data_def escape_eq escape_char_def to_string_def
  to_digits.simps digit_def GetMinX_def GetMinY_def GetMaxX_def GetMaxY_def
  GetWidth_def GetHeight_def filebase_def two_maps_def

lemma stream_paths_a:
  "stream_paths ''out/'' (two_maps 0) =
     [''out/e_10_20_0.tiles.txt'', ''out/e_10_20_0.items.txt'', ''out/e_10_20_0.warps.txt'']"
  by (simp add: stream_paths_def export_eval)

lemma stream_paths_b:
  "stream_paths ''out/'' map_b =
     [''out/e_12_21_0.tiles.txt'', ''out/e_12_21_0.items.txt'', ''out/e_12_21_0.warps.txt'']"
  by (simp add: stream_paths_def export_eval)

lemma export_streams_a:
  "export_streams (two_maps 0) =
     Some \<lparr>fieldsf =
            ''V: 2'' @ endl @ ''L: 0'' @ endl @ ''X: 10'' @ endl @ ''Y: 20'' @ endl @
            ''W: 3'' @ endl @ ''H: 2'' @ endl @ ''0;0;2;0'' @ endl @ ''1;0;2;0'' @ endl @
            ''2;0;2;0'' @ endl @ ''0;1;2;0'' @ endl @ ''1;1;2;0'' @ endl @ ''2;1;2;0'' @ endl,
          itemsf =
            ''2;1;5;333;a'' @ [backslash] @ ''=b'' @ [backslash] @ '';c'' @
            [backslash, backslash] @ ''d=x'' @ [backslash, backslash] @ ''y'' @ endl,
          warpsf = ''1;0;1;2;3'' @ endl\<rparr>"
proof -
  have "GetMaxX (two_maps 0) < SHRT_MAX" and "GetMaxY (two_maps 0) < SHRT_MAX"
    by (simp_all add: GetMaxX_def GetMaxY_def two_maps_def map_a_def SHRT_MAX_def)
  then have "export_streams (two_maps 0) = Some (export_cells (two_maps 0))"
    by (rule export_streams_returns)
  also have "export_cells (two_maps 0) =
      \<lparr>fieldsf =
         ''V: 2'' @ endl @ ''L: 0'' @ endl @ ''X: 10'' @ endl @ ''Y: 20'' @ endl @
         ''W: 3'' @ endl @ ''H: 2'' @ endl @ ''0;0;2;0'' @ endl @ ''1;0;2;0'' @ endl @
         ''2;0;2;0'' @ endl @ ''0;1;2;0'' @ endl @ ''1;1;2;0'' @ endl @ ''2;1;2;0'' @ endl,
       itemsf =
         ''2;1;5;333;a'' @ [backslash] @ ''=b'' @ [backslash] @ '';c'' @
         [backslash, backslash] @ ''d=x'' @ [backslash, backslash] @ ''y'' @ endl,
       warpsf = ''1;0;1;2;3'' @ endl\<rparr>"
    by (simp add: export_eval)
  finally show ?thesis .
qed

lemma export_example:
  "\<exists>fs'. exportTo (\<lambda>f. f \<noteq> ''out/e_12_21_0.items.txt'') two_maps ''out/'' world_ab Map.empty =
           Some (False, fs') \<and>
         fs' ''out/e_10_20_0.warps.txt'' = Some (''1;0;1;2;3'' @ endl) \<and>
         fs' ''out/e_12_21_0.tiles.txt'' = Some [] \<and>
         fs' ''out/e_12_21_0.items.txt'' = None"
proof -
  let ?can = "\<lambda>f. f \<noteq> ''out/e_12_21_0.items.txt''"
  have b: "two_maps (Suc 0) = map_b"
    by (simp add: two_maps_def)
  have open_a: "openable ?can ''out/'' (two_maps 0)"
    by (simp add: openable_def stream_paths_a)
  have first: "exportTo ?can two_maps ''out/'' (world_ab\<lparr>maps := [0]\<rparr>) Map.empty =
      Some (True, [''out/e_10_20_0.tiles.txt'' \<mapsto> fieldsf (the (export_streams (two_maps 0))),
                   ''out/e_10_20_0.items.txt'' \<mapsto> itemsf (the (export_streams (two_maps 0))),
                   ''out/e_10_20_0.warps.txt'' \<mapsto> warpsf (the (export_streams (two_maps 0)))])"
  proof -
    have "filebase ''out/'' (two_maps 0) = ''out/e_10_20_0.''"
      by (simp add: export_eval)
    then show ?thesis
      by (simp add: exportTo_def export_map_open [OF open_a] export_streams_a)
  qed
  have "maps world_ab = [0] @ Suc 0 # []"
    by (simp add: world_ab_def)
  moreover have "\<forall>q \<in> set [0]. openable ?can ''out/'' (two_maps q) \<and> export_streams (two_maps q) \<noteq> None"
    by (simp add: open_a export_streams_a)
  moreover have "\<not> openable ?can ''out/'' (two_maps (Suc 0))"
    by (simp add: openable_def b stream_paths_b)
  ultimately obtain fs0 where
    "exportTo ?can two_maps ''out/'' (world_ab\<lparr>maps := [0]\<rparr>) Map.empty = Some (True, fs0)"
    and "exportTo ?can two_maps ''out/'' world_ab Map.empty =
      Some (False, \<lambda>f. if f \<in> set (stream_paths ''out/'' (two_maps (Suc 0))) \<and> ?can f then Some []
                        else fs0 f)"
    using exportTo_failure [of world_ab "[0]" "Suc 0" "[]" ?can "''out/''" two_maps Map.empty]
    by blast
  with first show ?thesis
    by (simp add: b stream_paths_b export_streams_a)
qed

text \<open>
  C7. \<^verbatim>\<open>exportTo\<close> is to return true when every stream of every map can be opened,
  and false at the first map with a stream that cannot be opened. It does neither
  on the registry that holds the map of width 0 whose maximum Y is 32767:
  \<^verbatim>\<open>InsertMap\<close> registers that map, its three streams can be opened, and the loop over
  its rows never ends, so the call does not return. With the second example map
  behind it, whose item stream cannot be opened, the call does not return either.
\<close>

theorem C7_export_never_returns:
  "InsertMap maps_cb (Some 0) empty_world = Some (True, world_c) \<and>
   InsertMap maps_cb (Some 1) world_c = Some (True, world_cb) \<and>
   openable (\<lambda>f. True) ''out/'' (maps_cb 0) \<and>
   exportTo (\<lambda>f. True) maps_cb ''out/'' world_c Map.empty = None \<and>
   openable (\<lambda>f. f \<noteq> ''out/e_12_21_0.items.txt'') ''out/'' (maps_cb 0) \<and>
   \<not> openable (\<lambda>f. f \<noteq> ''out/e_12_21_0.items.txt'') ''out/'' (maps_cb 1) \<and>
   exportTo (\<lambda>f. f \<noteq> ''out/e_12_21_0.items.txt'') maps_cb ''out/'' world_cb Map.empty = None"
proof -
  let ?can = "\<lambda>f. f \<noteq> ''out/e_12_21_0.items.txt''"
  have c: "maps_cb 0 = map_c" and b: "maps_cb 1 = map_b"
    by (simp_all add: maps_cb_def)
  have "(\<lambda>pos. if covers maps_cb 0 pos then Some 0 else Map.empty pos) = Map.empty"
    by (intro ext) (simp add: covers_def c map_c_def)
  then have i0: "InsertMap maps_cb (Some 0) empty_world = Some (True, world_c)"
    by (simp add: InsertMap_new empty_world_def world_c_def wraps_def SHRT_MAX_def c map_c_def
        cong: if_cong)
  have i1: "InsertMap maps_cb (Some 1) world_c = Some (True, world_cb)"
    by (simp add: InsertMap_new world_c_def world_cb_def wraps_def SHRT_MAX_def maps_cb_def
        map_b_def cong: if_cong)
  have paths_c: "stream_paths ''out/'' map_c =
      [''out/e_1_0_0.tiles.txt'', ''out/e_1_0_0.items.txt'', ''out/e_1_0_0.warps.txt'']"
    by (simp add: stream_paths_def filebase_def GetMinX_def GetMinY_def map_c_def to_string_def
        to_digits.simps digit_def)
  have o1: "openable (\<lambda>f. True) ''out/'' (maps_cb 0)"
    by (simp add: openable_def stream_paths_def)
  have o2: "openable ?can ''out/'' (maps_cb 0)"
    by (simp add: openable_def c paths_c)
  have o3: "\<not> openable ?can ''out/'' (maps_cb 1)"
    unfolding b openable_def stream_paths_b by simp
  have never: "export_streams (maps_cb 0) = None"
    by (simp add: export_streams_eq c wraps_def SHRT_MAX_def GetMinY_def GetMaxY_def map_c_def)
  have e1: "exportTo (\<lambda>f. True) maps_cb ''out/'' world_c Map.empty = None"
    using exportTo_never_returns [of world_c "[]" 0 "[]" "\<lambda>f. True" "''out/''" maps_cb Map.empty]
      o1 never by (simp add: world_c_def)
  have e2: "exportTo ?can maps_cb ''out/'' world_cb Map.empty = None"
    using exportTo_never_returns [of world_cb "[]" 0 "[1]" ?can "''out/''" maps_cb Map.empty]
      o2 never by (simp add: world_cb_def)
  from i0 i1 o1 e1 o2 o3 e2 show ?thesis
    by (intro conjI)
qed

section \<open>Properties of the binary snapshot\<close>

lemma length_native: "length (native be n v) = n"
  by (simp add: native_def Let_def)

lemma length_record_bytes: "length (record_bytes pl m) = sizeof_record pl"
  by (simp add: record_bytes_def sizeof_record_def length_native)

lemma save_maps_ok:
  assumes "\<forall>p \<in> set ps. length (sprintf_mname prefix (h p)) < 200"
  shows "save_maps pl h prefix ps (bytes, calls) =
           Inr (bytes @ concat (map (\<lambda>p. record_bytes pl (h p)) ps),
                calls @ map (\<lambda>p. (p, sprintf_mname prefix (h p))) ps)"
  using assms by (induction ps arbitrary: bytes calls) simp_all

lemma saveToDisk_ok:
  assumes "can_open (prefix @ ''_initmaps'')"
    and "\<forall>p \<in> set (maps w). length (sprintf_mname prefix (h p)) < 200"
  shows "saveToDisk pl can_open h prefix w fs =
           Inr (fs(prefix @ ''_initmaps'' \<mapsto>
                  native (big_endian pl) 2 (int (length (maps w) mod 2 ^ 16)) @
                  concat (map (\<lambda>p. record_bytes pl (h p)) (maps w))),
                map (\<lambda>p. (p, sprintf_mname prefix (h p))) (maps w))"
  using assms by (simp add: saveToDisk_def save_maps_ok)

lemma native_value_native: "native_value be (native be n v) = v mod 256 ^ n"
proof -
  have "foldr (\<lambda>b acc. of_char b + 256 * acc) (map (\<lambda>k. char_of (v div 256 ^ k)) [0..<n]) 0 =
      v mod 256 ^ n" for v :: int
  proof (induction n arbitrary: v)
    case 0
    show ?case
      by simp
  next
    case (Suc n)
    have "[0..<Suc n] = 0 # map Suc [0..<n]"
      by (simp add: upt_conv_Cons map_Suc_upt del: upt_Suc)
    then have "map (\<lambda>k. char_of (v div 256 ^ k) :: char) [0..<Suc n] =
        char_of v # map (\<lambda>k. char_of ((v div 256) div 256 ^ k)) [0..<n]"
      by (simp add: comp_def zdiv_zmult2_eq del: upt_Suc)
    then show ?case
      using Suc [of "v div 256"] by (simp add: zmod_zmult2_eq del: upt_Suc)
  qed
  then show ?thesis
    by (simp add: native_value_def native_def Let_def)
qed

lemma concat_blocks_nth:
  assumes "\<forall>x \<in> set xs. length (f x) = k" and "i < length xs"
  shows "take k (drop (i * k) (concat (map f xs))) = f (xs ! i)"
  using assms
proof (induction xs arbitrary: i)
  case Nil
  then show ?case
    by simp
next
  case (Cons x xs)
  show ?case
  proof (cases i)
    case 0
    with Cons.prems show ?thesis
      by simp
  next
    case (Suc j)
    with Cons.prems have "j < length xs"
      by simp
    with Cons.IH Cons.prems(1) have "take k (drop (j * k) (concat (map f xs))) = f (xs ! j)"
      by simp
    moreover from Cons.prems(1) have "length (f x) = k"
      by simp
    ultimately show ?thesis
      using Suc by simp
  qed
qed

lemma concat_blocks_length:
  assumes "\<forall>x \<in> set xs. length (f x) = k"
  shows "length (concat (map f xs)) = length xs * k"
  using assms by (induction xs) simp_all

text \<open>
  C8. When the index file can be created and the name of every map fits the buffer,
  \<^verbatim>\<open>saveToDisk\<close> writes the file \<^verbatim>\<open>{prefix}_initmaps\<close>: a count of two bytes, then one
  record of a fixed width for every registered map, in the order of registration,
  made of the z-level, the minimum X, the minimum Y, the width and the height of
  that map in the native layout. The count is the number of registered maps modulo
  \<open>2 ^ 16\<close>; it is the number of registered maps when there are fewer than
  \<open>2 ^ 16\<close> of them. With 65536 maps the count is 0 and 65536 records follow.
\<close>

theorem C8_index_file:
  assumes "can_open (prefix @ ''_initmaps'')"
    and "\<forall>p \<in> set (maps w). length (sprintf_mname prefix (h p)) < 200"
  shows "\<exists>content calls.
           saveToDisk pl can_open h prefix w fs = Inr (fs(prefix @ ''_initmaps'' \<mapsto> content), calls) \<and>
           content = native (big_endian pl) 2 (int (length (maps w) mod 2 ^ 16)) @
             concat (map (\<lambda>p. record_bytes pl (h p)) (maps w)) \<and>
           length content = 2 + length (maps w) * sizeof_record pl \<and>
           native_value (big_endian pl) (take 2 content) = int (length (maps w) mod 2 ^ 16) \<and>
           (length (maps w) < 2 ^ 16 \<longrightarrow>
              native_value (big_endian pl) (take 2 content) = int (length (maps w))) \<and>
           (\<forall>i < length (maps w).
              take (sizeof_record pl) (drop (2 + i * sizeof_record pl) content) =
                native (big_endian pl) (sizeof_Z_Level pl) (Z_Level (h (maps w ! i))) @
                native (big_endian pl) (sizeof_Min_X pl) (Min_X (h (maps w ! i))) @
                native (big_endian pl) (sizeof_Min_Y pl) (Min_Y (h (maps w ! i))) @
                native (big_endian pl) (sizeof_Width pl) (Width (h (maps w ! i))) @
                native (big_endian pl) (sizeof_Height pl) (Height (h (maps w ! i))))"
proof -
  let ?count = "native (big_endian pl) 2 (int (length (maps w) mod 2 ^ 16))"
  let ?records = "concat (map (\<lambda>p. record_bytes pl (h p)) (maps w))"
  have blocks: "\<forall>p \<in> set (maps w). length (record_bytes pl (h p)) = sizeof_record pl"
    by (simp add: length_record_bytes)
  have "saveToDisk pl can_open h prefix w fs =
      Inr (fs(prefix @ ''_initmaps'' \<mapsto> ?count @ ?records),
           map (\<lambda>p. (p, sprintf_mname prefix (h p))) (maps w))"
    using assms by (rule saveToDisk_ok)
  moreover have "length (?count @ ?records) = 2 + length (maps w) * sizeof_record pl"
    using concat_blocks_length [OF blocks] by (simp add: length_native)
  moreover have v: "native_value (big_endian pl) (take 2 (?count @ ?records)) =
      int (length (maps w) mod 2 ^ 16)"
  proof -
    have "int (length (maps w) mod 2 ^ 16) mod 256 ^ 2 = int (length (maps w) mod 2 ^ 16)"
      by (simp add: zmod_int)
    then show ?thesis
      by (simp add: length_native native_value_native)
  qed
  moreover have "length (maps w) < 2 ^ 16 \<longrightarrow>
      native_value (big_endian pl) (take 2 (?count @ ?records)) = int (length (maps w))"
  proof
    assume "length (maps w) < 2 ^ 16"
    then have e: "length (maps w) mod 2 ^ 16 = length (maps w)"
      by simp
    from v show "native_value (big_endian pl) (take 2 (?count @ ?records)) = int (length (maps w))"
      unfolding e .
  qed
  moreover have "take (sizeof_record pl) (drop (2 + i * sizeof_record pl) (?count @ ?records)) =
      native (big_endian pl) (sizeof_Z_Level pl) (Z_Level (h (maps w ! i))) @
      native (big_endian pl) (sizeof_Min_X pl) (Min_X (h (maps w ! i))) @
      native (big_endian pl) (sizeof_Min_Y pl) (Min_Y (h (maps w ! i))) @
      native (big_endian pl) (sizeof_Width pl) (Width (h (maps w ! i))) @
      native (big_endian pl) (sizeof_Height pl) (Height (h (maps w ! i)))"
    if "i < length (maps w)" for i
    using concat_blocks_nth [OF blocks that]
    by (simp add: length_native record_bytes_def)
  ultimately show ?thesis
    by blast
qed


lemma example_names:
  "sprintf_mname ''w'' (two_maps 0) = ''w_     0_    10_    20''"
  "sprintf_mname ''w'' (two_maps (Suc 0)) = ''w_     0_    12_    21''"
  "sprintf_mname ''w'' map_b = ''w_     0_    12_    21''"
  "spec_filename ''w'' (two_maps 0) = ''w_0_10_20''"
  by code_simp+

lemma example_records:
  "record_bytes x86_short (two_maps 0) =
     [CHR 0x00, CHR 0x00, CHR 0x0A, CHR 0x00, CHR 0x14, CHR 0x00, CHR 0x03, CHR 0x00, CHR 0x02, CHR 0x00]"
  "record_bytes x86_short (two_maps (Suc 0)) =
     [CHR 0x00, CHR 0x00, CHR 0x0C, CHR 0x00, CHR 0x15, CHR 0x00, CHR 0x02, CHR 0x00, CHR 0x02, CHR 0x00]"
  "native False 2 2 = [CHR 0x02, CHR 0x00]"
  by (simp_all add: record_bytes_def x86_short_def two_maps_def map_a_def map_b_def native_def
      Let_def numeral_2_eq_2 char_of_def)

theorem C8_index_file_witness:
  "map_sum id fst (saveToDisk x86_short (\<lambda>f. True) two_maps ''w''
     \<lparr>maps = [0, 1], world_map = Map.empty, ageIndex = 0\<rparr> Map.empty) =
     Inr [''w_initmaps'' \<mapsto>
       [CHR 0x02, CHR 0x00,
        CHR 0x00, CHR 0x00, CHR 0x0A, CHR 0x00, CHR 0x14, CHR 0x00, CHR 0x03, CHR 0x00, CHR 0x02, CHR 0x00,
        CHR 0x00, CHR 0x00, CHR 0x0C, CHR 0x00, CHR 0x15, CHR 0x00, CHR 0x02, CHR 0x00, CHR 0x02, CHR 0x00]] \<and>
   native_value False [CHR 0x02, CHR 0x00] = 2"
proof -
  let ?w = "\<lparr>maps = [0, 1], world_map = Map.empty, ageIndex = 0\<rparr>"
  have "(\<lambda>f. True) (''w'' @ ''_initmaps'')"
    by simp
  moreover have "\<forall>p \<in> set (maps ?w). length (sprintf_mname ''w'' (two_maps p)) < 200"
    by (simp add: example_names)
  ultimately obtain content calls where
    "saveToDisk x86_short (\<lambda>f. True) two_maps ''w'' ?w Map.empty =
       Inr (Map.empty(''w'' @ ''_initmaps'' \<mapsto> content), calls)"
    and "content = native (big_endian x86_short) 2 (int (length (maps ?w) mod 2 ^ 16)) @
       concat (map (\<lambda>p. record_bytes x86_short (two_maps p)) (maps ?w))"
    and "native_value (big_endian x86_short) (take 2 content) = int (length (maps ?w) mod 2 ^ 16)"
    using C8_index_file [of "\<lambda>f. True" "''w''" ?w two_maps x86_short Map.empty] by blast
  moreover have "big_endian x86_short = False"
    by (simp add: x86_short_def)
  ultimately show ?thesis
    by (simp add: example_records)
qed

theorem C8_index_file_counterexample:
  "length (maps \<lparr>maps = [0..<65536], world_map = Map.empty, ageIndex = 0\<rparr>) = 65536 \<and>
   saveToDisk x86_short (\<lambda>f. True) (\<lambda>a. map_b) ''w''
     \<lparr>maps = [0..<65536], world_map = Map.empty, ageIndex = 0\<rparr> Map.empty =
     Inr ([''w_initmaps'' \<mapsto>
             native False 2 0 @ concat (map (\<lambda>p. record_bytes x86_short map_b) [0..<65536])],
          map (\<lambda>p. (p, sprintf_mname ''w'' map_b)) [0..<65536]) \<and>
   native_value False
     (take 2 (native False 2 0 @ concat (map (\<lambda>p. record_bytes x86_short map_b) [0..<65536]))) = 0 \<and>
   length (concat (map (\<lambda>p. record_bytes x86_short map_b) [0..<65536])) = 65536 * sizeof_record x86_short"
proof -
  let ?w = "\<lparr>maps = [0..<65536], world_map = Map.empty, ageIndex = 0\<rparr>"
  have "(\<lambda>f. True) (''w'' @ ''_initmaps'')"
    by simp
  moreover have "\<forall>p \<in> set (maps ?w). length (sprintf_mname ''w'' ((\<lambda>a. map_b) p)) < 200"
    by (simp add: example_names)
  ultimately have "saveToDisk x86_short (\<lambda>f. True) (\<lambda>a. map_b) ''w'' ?w Map.empty =
      Inr (Map.empty(''w'' @ ''_initmaps'' \<mapsto>
             native (big_endian x86_short) 2 (int (length (maps ?w) mod 2 ^ 16)) @
             concat (map (\<lambda>p. record_bytes x86_short ((\<lambda>a. map_b) p)) (maps ?w))),
           map (\<lambda>p. (p, sprintf_mname ''w'' ((\<lambda>a. map_b) p))) (maps ?w))"
    by (rule saveToDisk_ok)
  then have run: "saveToDisk x86_short (\<lambda>f. True) (\<lambda>a. map_b) ''w'' ?w Map.empty =
      Inr ([''w_initmaps'' \<mapsto>
              native False 2 0 @ concat (map (\<lambda>p. record_bytes x86_short map_b) [0..<65536])],
           map (\<lambda>p. (p, sprintf_mname ''w'' map_b)) [0..<65536])"
    by (simp add: x86_short_def)
  have count: "native_value False
      (take 2 (native False 2 0 @ concat (map (\<lambda>p. record_bytes x86_short map_b) [0..<65536]))) = 0"
    by (simp add: length_native native_value_native)
  have "\<forall>p \<in> set [0..<65536::nat]. length (record_bytes x86_short map_b) = sizeof_record x86_short"
    by (simp add: length_record_bytes)
  from concat_blocks_length [OF this] run count show ?thesis
    by simp
qed

text \<open>
  C9. When the index file can be created and the name of every map fits the buffer,
  \<^verbatim>\<open>saveToDisk\<close> calls \<^verbatim>\<open>Save\<close> once for every registered map, in the order of
  registration, with the name made of the prefix, the z-level, the minimum X and
  the minimum Y joined by underscores, where each number is written by \<^verbatim>\<open>%6d\<close>: in
  decimal, after as many spaces as it lacks to six characters. The name is the one
  of the specification only when none of the three numbers is shorter than six
  characters: for the prefix \<^verbatim>\<open>w\<close> and the first example map the name is
  \<^verbatim>\<open>w_     0_    10_    20\<close>, not \<^verbatim>\<open>w_0_10_20\<close>.
\<close>

theorem C9_save_filename:
  assumes "can_open (prefix @ ''_initmaps'')"
    and "\<forall>p \<in> set (maps w). length (sprintf_mname prefix (h p)) < 200"
  shows "(\<exists>fs'. saveToDisk pl can_open h prefix w fs =
            Inr (fs', map (\<lambda>p. (p, prefix @ ''_'' @ format_6d (Z_Level (h p)) @ ''_'' @
                                   format_6d (Min_X (h p)) @ ''_'' @ format_6d (Min_Y (h p))))
                        (maps w))) \<and>
         (\<forall>v. format_6d v = replicate (6 - length (to_string v)) (CHR '' '') @ to_string v) \<and>
         (\<forall>m. 6 \<le> length (to_string (Z_Level m)) \<and> 6 \<le> length (to_string (Min_X m)) \<and>
               6 \<le> length (to_string (Min_Y m)) \<longrightarrow>
               sprintf_mname prefix m = spec_filename prefix m)"
proof -
  have "\<exists>fs'. saveToDisk pl can_open h prefix w fs =
      Inr (fs', map (\<lambda>p. (p, prefix @ ''_'' @ format_6d (Z_Level (h p)) @ ''_'' @
                             format_6d (Min_X (h p)) @ ''_'' @ format_6d (Min_Y (h p))))
                  (maps w))"
    using assms by (simp add: saveToDisk_ok sprintf_mname_def)
  moreover have "format_6d v = replicate (6 - length (to_string v)) (CHR '' '') @ to_string v" for v
    by (simp add: format_6d_def)
  moreover have "sprintf_mname prefix m = spec_filename prefix m"
    if "6 \<le> length (to_string (Z_Level m)) \<and> 6 \<le> length (to_string (Min_X m)) \<and>
        6 \<le> length (to_string (Min_Y m))" for m
    using that by (simp add: sprintf_mname_def spec_filename_def format_6d_def)
  ultimately show ?thesis
    by blast
qed

theorem C9_save_filename_witness:
  "map_sum id snd (saveToDisk x86_short (\<lambda>f. True) two_maps ''w''
     \<lparr>maps = [0, 1], world_map = Map.empty, ageIndex = 0\<rparr> Map.empty) =
     Inr [(0, ''w_     0_    10_    20''), (1, ''w_     0_    12_    21'')]"
proof -
  let ?w = "\<lparr>maps = [0, 1], world_map = Map.empty, ageIndex = 0\<rparr>"
  have "(\<lambda>f. True) (''w'' @ ''_initmaps'')"
    by simp
  moreover have "\<forall>p \<in> set (maps ?w). length (sprintf_mname ''w'' (two_maps p)) < 200"
    by (simp add: example_names)
  ultimately obtain fs' where
    "saveToDisk x86_short (\<lambda>f. True) two_maps ''w'' ?w Map.empty =
       Inr (fs', map (\<lambda>p. (p, ''w'' @ ''_'' @ format_6d (Z_Level (two_maps p)) @ ''_'' @
                              format_6d (Min_X (two_maps p)) @ ''_'' @ format_6d (Min_Y (two_maps p))))
                   (maps ?w))"
    using C9_save_filename [of "\<lambda>f. True" "''w''" ?w two_maps x86_short Map.empty] by blast
  then show ?thesis
    using example_names(1,2) by (simp add: sprintf_mname_def)
qed

theorem C9_save_filename_counterexample:
  "map_sum id snd (saveToDisk x86_short (\<lambda>f. True) two_maps ''w''
     \<lparr>maps = [0], world_map = Map.empty, ageIndex = 0\<rparr> Map.empty) =
     Inr [(0, ''w_     0_    10_    20'')] \<and>
   spec_filename ''w'' (two_maps 0) = ''w_0_10_20'' \<and>
   ''w_     0_    10_    20'' \<noteq> ''w_0_10_20''"
proof -
  let ?w = "\<lparr>maps = [0], world_map = Map.empty, ageIndex = 0\<rparr>"
  have "(\<lambda>f. True) (''w'' @ ''_initmaps'')"
    by simp
  moreover have "\<forall>p \<in> set (maps ?w). length (sprintf_mname ''w'' (two_maps p)) < 200"
    by (simp add: example_names)
  ultimately have "saveToDisk x86_short (\<lambda>f. True) two_maps ''w'' ?w Map.empty =
      Inr (Map.empty(''w'' @ ''_initmaps'' \<mapsto>
             native (big_endian x86_short) 2 (int (length (maps ?w) mod 2 ^ 16)) @
             concat (map (\<lambda>p. record_bytes x86_short (two_maps p)) (maps ?w))),
           map (\<lambda>p. (p, sprintf_mname ''w'' (two_maps p))) (maps ?w))"
    by (rule saveToDisk_ok)
  then show ?thesis
    by (simp add: example_names)
qed

end
